theory Spec2Isabelle
  imports Complex_Main "HOL-Library.Extended_Nat" "HOL-Library.AList"
begin

section \<open>Data model\<close>

text \<open>
  Unit ids are strings (uuid text unless the caller supplies one).
\<close>

type_synonym uid = string

text \<open>
  Modelled from the spec: the value types of \<^verbatim>\<open>model.py\<close> (\<^verbatim>\<open>RelationType\<close>,
  \<^verbatim>\<open>Relation\<close>, \<^verbatim>\<open>AtomicUnit\<close>, \<^verbatim>\<open>LineageStep\<close>, \<^verbatim>\<open>ConflictResult\<close>), which the
  engine imports. The fields are the ones the engine reads and writes. The relation type
  is the closed set of five variants; \<open>type_str\<close> is the text the engine compares with
  \<^verbatim>\<open>"refutes"\<close> and \<^verbatim>\<open>"contradicts"\<close> and prints in explanations. The creation time
  of an \<^verbatim>\<open>AtomicUnit\<close> is set by the clock whenever one is constructed and is never read
  back from a stored row, so it appears in the stored row only.
\<close>

datatype relation_type = Supports | Refutes | Extends | Implies | Contradicts

fun type_str :: "relation_type \<Rightarrow> string" where
  "type_str Supports = ''supports''"
| "type_str Refutes = ''refutes''"
| "type_str Extends = ''extends''"
| "type_str Implies = ''implies''"
| "type_str Contradicts = ''contradicts''"

record relation =
  source_id :: uid
  target_id :: uid
  type :: relation_type
  reasoning :: string

record atomic_unit =
  unit_id :: uid
  content :: string
  source_doi :: "string option"
  confidence :: real
  vector :: "real list"

record lineage_step =
  unit :: atomic_unit
  relation_to_next :: "relation option"

record conflict_result =
  conflicting_unit :: atomic_unit
  relation :: "relation option"
  explanation :: string

text \<open>
  A row of the \<^verbatim>\<open>units\<close> table, with the columns of \<^verbatim>\<open>_init_table\<close>. The source
  column is a plain string: an absent source is stored as the empty string.
\<close>

record row =
  row_id :: uid
  row_content :: string
  row_source_doi :: string
  row_confidence :: real
  row_created_at :: string
  row_vector :: "real list"

text \<open>
  The in-memory \<^verbatim>\<open>nx.DiGraph\<close>: nodes with their optional \<^verbatim>\<open>content\<close> label and
  edges with their \<^verbatim>\<open>type\<close> and \<^verbatim>\<open>reasoning\<close> attributes, both as insertion-ordered
  dictionaries with unique keys. A node created implicitly by \<^verbatim>\<open>add_edge\<close> has no label.
\<close>

record digraph =
  nodes :: "(uid \<times> string option) list"
  edges :: "((uid \<times> uid) \<times> (relation_type \<times> string)) list"

definition has_node :: "digraph \<Rightarrow> uid \<Rightarrow> bool" where
  "has_node g n = (map_of (nodes g) n \<noteq> None)"

definition has_edge :: "digraph \<Rightarrow> uid \<Rightarrow> uid \<Rightarrow> bool" where
  "has_edge g u v = (map_of (edges g) (u, v) \<noteq> None)"

definition add_node :: "digraph \<Rightarrow> uid \<Rightarrow> string \<Rightarrow> digraph" where
  "add_node g n c = g\<lparr>nodes := AList.update n (Some c) (nodes g)\<rparr>"

definition ensure_node :: "uid \<Rightarrow> (uid \<times> string option) list \<Rightarrow> (uid \<times> string option) list" where
  "ensure_node n ns = (if map_of ns n = None then ns @ [(n, None)] else ns)"

definition add_edge :: "digraph \<Rightarrow> uid \<Rightarrow> uid \<Rightarrow> relation_type \<Rightarrow> string \<Rightarrow> digraph" where
  "add_edge g u v t r =
     g\<lparr>nodes := ensure_node v (ensure_node u (nodes g)),
       edges := AList.update (u, v) (t, r) (edges g)\<rparr>"

definition remove_node :: "digraph \<Rightarrow> uid \<Rightarrow> digraph" where
  "remove_node g n =
     g\<lparr>nodes := AList.delete n (nodes g),
       edges := filter (\<lambda>((u, v), d). u \<noteq> n \<and> v \<noteq> n) (edges g)\<rparr>"

text \<open>
  \<^verbatim>\<open>to_undirected()\<close>: the same nodes, every edge usable in both directions. The
  undirected graph is kept as a graph whose edge dictionary is symmetric.
\<close>

definition to_undirected :: "digraph \<Rightarrow> digraph" where
  "to_undirected g =
     g\<lparr>edges := edges g @ map (\<lambda>((u, v), d). ((v, u), d)) (edges g)\<rparr>"

section \<open>Collaborators outside the repository\<close>

datatype sp_result = Path "uid list" | NetworkXNoPath | NodeNotFound

text \<open>
  The engine calls four things it does not define: the embedding provider (which may fail,
  \<open>Inl\<close> carrying the provider's message), the vector index's cosine ranking of the stored
  rows (each hit with its optional \<^verbatim>\<open>_distance\<close>), the graph library's
  \<^verbatim>\<open>shortest_path\<close>, and the language's two-decimal number formatting. They are passed
  in.
\<close>

record env =
  embed :: "string \<Rightarrow> string + real list"
  vector_search :: "real list \<Rightarrow> row list \<Rightarrow> (row \<times> real option) list"
  shortest_path :: "digraph \<Rightarrow> uid \<Rightarrow> uid \<Rightarrow> sp_result"
  format_2f :: "real \<Rightarrow> string"

section \<open>Persistence (persistence.py)\<close>

text \<open>
  The engine state: the \<^verbatim>\<open>units\<close> table, the graph, the relation list of the
  persistence manager and the content of \<^verbatim>\<open>relations.json\<close> (\<open>None\<close> while the file
  does not exist).
\<close>

record kg =
  table :: "row list"
  graph :: digraph
  relations :: "relation list"
  relations_file :: "relation list option"

datatype error = ValueError string | ProviderError string | NodeNotFoundError

definition save_relations :: "kg \<Rightarrow> kg" where
  "save_relations s = s\<lparr>relations_file := Some (relations s)\<rparr>"

definition get_all_relations :: "kg \<Rightarrow> relation list" where
  "get_all_relations s = relations s"

definition add_relation :: "kg \<Rightarrow> relation \<Rightarrow> kg" where
  "add_relation s r = save_relations (s\<lparr>relations := relations s @ [r]\<rparr>)"

definition get_relations_for_unit :: "kg \<Rightarrow> uid \<Rightarrow> relation list" where
  "get_relations_for_unit s u =
     filter (\<lambda>r. source_id r = u \<or> target_id r = u) (relations s)"

definition relation_exists :: "kg \<Rightarrow> uid \<Rightarrow> uid \<Rightarrow> relation_type \<Rightarrow> bool" where
  "relation_exists s a b t =
     list_ex (\<lambda>r. source_id r = a \<and> target_id r = b \<and> type r = t) (relations s)"

definition delete_relations_for_unit :: "kg \<Rightarrow> uid \<Rightarrow> int \<times> kg" where
  "delete_relations_for_unit s u =
     (let original_count = int (length (relations s));
          s1 = s\<lparr>relations := filter (\<lambda>r. source_id r \<noteq> u \<and> target_id r \<noteq> u) (relations s)\<rparr>;
          deleted_count = original_count - int (length (relations s1))
      in (deleted_count, if deleted_count > 0 then save_relations s1 else s1))"

section \<open>Engine (graph\_engine.py)\<close>

definition load_graph_from_persistence :: "kg \<Rightarrow> kg" where
  "load_graph_from_persistence s =
     s\<lparr>graph := foldl (\<lambda>g r. add_edge g (source_id r) (target_id r) (type r) (reasoning r))
                      (graph s) (get_all_relations s)\<rparr>"

definition unit_of_row :: "row \<Rightarrow> atomic_unit" where
  "unit_of_row r =
     \<lparr>unit_id = row_id r, content = row_content r,
      source_doi = (if row_source_doi r \<noteq> [] then Some (row_source_doi r) else None),
      confidence = row_confidence r, vector = row_vector r\<rparr>"

text \<open>
  \<^verbatim>\<open>add_proposition\<close>. \<open>fresh\<close> is the id the unit's default factory generates and
  \<open>now\<close> the creation time it stamps; \<open>given_id\<close> is the optional \<^verbatim>\<open>unit_id\<close> argument,
  used only when it is a non-empty string.
\<close>

definition add_proposition ::
  "env \<Rightarrow> uid \<Rightarrow> string \<Rightarrow> kg \<Rightarrow> string \<Rightarrow> string option \<Rightarrow> real \<Rightarrow> uid option
     \<Rightarrow> (error + atomic_unit) \<times> kg" where
  "add_proposition e fresh now s text src conf given_id =
     (case embed e text of
        Inl msg \<Rightarrow> (Inl (ProviderError msg), s)
      | Inr vec \<Rightarrow>
          let u0 = \<lparr>unit_id = fresh, content = text, source_doi = src,
                    confidence = conf, vector = vec\<rparr>;
              u = (case given_id of
                     None \<Rightarrow> u0
                   | Some i \<Rightarrow> if i \<noteq> [] then u0\<lparr>unit_id := i\<rparr> else u0);
              r = \<lparr>row_id = unit_id u, row_content = content u,
                   row_source_doi = (case source_doi u of
                                       None \<Rightarrow> []
                                     | Some d \<Rightarrow> d),
                   row_confidence = confidence u, row_created_at = now,
                   row_vector = vector u\<rparr>
          in (Inr u, s\<lparr>table := table s @ [r],
                       graph := add_node (graph s) (unit_id u) (content u)\<rparr>))"

text \<open>
  \<^verbatim>\<open>get_unit\<close> for an id whose filter text \<^verbatim>\<open>id = '...'\<close> the index reads as
  equality with the id, as it does for ids without a quote character: the first row whose
  id column equals the id, rebuilt as a unit; an empty source column reads back as an absent
  source. The lookup with the index's reading of the filter text left open is
  \<open>get_unit_where\<close> in the section on the filter text, where ids with a quote character
  are treated. Scores, confidences and vector entries are floating-point numbers in the code
  and real numbers here; the narrowing of the vector column to single precision is not
  modelled.
\<close>

definition get_unit :: "kg \<Rightarrow> uid \<Rightarrow> atomic_unit option" where
  "get_unit s i =
     (case filter (\<lambda>r. row_id r = i) (table s) of
        [] \<Rightarrow> None
      | r # _ \<Rightarrow> Some (unit_of_row r))"

definition connect_concepts ::
  "kg \<Rightarrow> uid \<Rightarrow> uid \<Rightarrow> relation_type \<Rightarrow> string \<Rightarrow> (error + relation) \<times> kg" where
  "connect_concepts s src tgt t why =
     (if get_unit s src = None then
        (Inl (ValueError (''Source unit not found: '' @ src)), s)
      else if get_unit s tgt = None then
        (Inl (ValueError (''Target unit not found: '' @ tgt)), s)
      else
        let rel = \<lparr>source_id = src, target_id = tgt, type = t, reasoning = why\<rparr>;
            s1 = s\<lparr>graph := add_edge (graph s) src tgt t why\<rparr>
        in (Inr rel, add_relation s1 rel))"

definition semantic_search ::
  "env \<Rightarrow> kg \<Rightarrow> string \<Rightarrow> nat \<Rightarrow> error + (atomic_unit \<times> real) list" where
  "semantic_search e s query limit =
     (case embed e query of
        Inl msg \<Rightarrow> Inl (ProviderError msg)
      | Inr qv \<Rightarrow>
          Inr (map (\<lambda>(r, d). (unit_of_row r, 1 - (case d of None \<Rightarrow> 0 | Some x \<Rightarrow> x)))
                   (take limit (vector_search e qv (table s)))))"

text \<open>
  The candidate loops of \<^verbatim>\<open>find_path\<close>. The running pair is \<^verbatim>\<open>best_path\<close> and
  \<^verbatim>\<open>best_path_length\<close> (initially \<^verbatim>\<open>None\<close> and infinity). Only \<^verbatim>\<open>NetworkXNoPath\<close>
  is caught; any other outcome of the library call leaves the loops as an error.
\<close>

type_synonym best = "uid list option \<times> enat"

fun end_loop ::
  "env \<Rightarrow> digraph \<Rightarrow> atomic_unit \<Rightarrow> (atomic_unit \<times> real) list \<Rightarrow> best \<Rightarrow> error + best" where
  "end_loop e g start_unit [] b = Inr b"
| "end_loop e g start_unit ((end_unit, _) # rest) b =
     (if unit_id start_unit = unit_id end_unit then end_loop e g start_unit rest b
      else
        (case shortest_path e (to_undirected g) (unit_id start_unit) (unit_id end_unit) of
           Path path \<Rightarrow>
             end_loop e g start_unit rest
               (if enat (length path) < snd b then (Some path, enat (length path)) else b)
         | NetworkXNoPath \<Rightarrow> end_loop e g start_unit rest b
         | NodeNotFound \<Rightarrow> Inl NodeNotFoundError))"

fun start_loop ::
  "env \<Rightarrow> digraph \<Rightarrow> (atomic_unit \<times> real) list \<Rightarrow> (atomic_unit \<times> real) list \<Rightarrow> best
     \<Rightarrow> error + best" where
  "start_loop e g [] end_results b = Inr b"
| "start_loop e g ((start_unit, _) # rest) end_results b =
     (case end_loop e g start_unit end_results b of
        Inl err \<Rightarrow> Inl err
      | Inr b' \<Rightarrow> start_loop e g rest end_results b')"

text \<open>
  The relation reported between a path node and its successor: the edge
  \<^verbatim>\<open>node_id -> next_id\<close> if the graph has it, otherwise the edge \<^verbatim>\<open>next_id -> node_id\<close>
  if the graph has that, otherwise none.
\<close>

definition edge_relation :: "digraph \<Rightarrow> uid \<Rightarrow> uid \<Rightarrow> relation option" where
  "edge_relation g node_id next_id =
     (case map_of (edges g) (node_id, next_id) of
        Some (t, why) \<Rightarrow>
          Some \<lparr>source_id = node_id, target_id = next_id, type = t, reasoning = why\<rparr>
      | None \<Rightarrow>
          (case map_of (edges g) (next_id, node_id) of
             Some (t, why) \<Rightarrow>
               Some \<lparr>source_id = next_id, target_id = node_id, type = t, reasoning = why\<rparr>
           | None \<Rightarrow> None))"

fun build_steps :: "kg \<Rightarrow> uid list \<Rightarrow> lineage_step list" where
  "build_steps s [] = []"
| "build_steps s (node_id # rest) =
     (case get_unit s node_id of
        None \<Rightarrow> build_steps s rest
      | Some u \<Rightarrow>
          \<lparr>unit = u,
           relation_to_next = (case rest of
                                 [] \<Rightarrow> None
                               | next_id # _ \<Rightarrow> edge_relation (graph s) node_id next_id)\<rparr>
          # build_steps s rest)"

definition disconnected ::
  "(atomic_unit \<times> real) list \<Rightarrow> (atomic_unit \<times> real) list \<Rightarrow> lineage_step list" where
  "disconnected start_results end_results =
     [\<lparr>unit = fst (hd start_results), relation_to_next = None\<rparr>,
      \<lparr>unit = fst (hd end_results), relation_to_next = None\<rparr>]"

definition find_path :: "env \<Rightarrow> kg \<Rightarrow> string \<Rightarrow> string \<Rightarrow> error + lineage_step list" where
  "find_path e s start_concept end_concept =
     (case semantic_search e s start_concept 3 of
        Inl err \<Rightarrow> Inl err
      | Inr start_results \<Rightarrow>
          if start_results = [] then
            Inl (ValueError (''No units found matching: '' @ start_concept))
          else
            (case semantic_search e s end_concept 3 of
               Inl err \<Rightarrow> Inl err
             | Inr end_results \<Rightarrow>
                 if end_results = [] then
                   Inl (ValueError (''No units found matching: '' @ end_concept))
                 else
                   (case start_loop e (graph s) start_results end_results (None, \<infinity>) of
                      Inl err \<Rightarrow> Inl err
                    | Inr (best_path, _) \<Rightarrow>
                        (case best_path of
                           None \<Rightarrow> Inr (disconnected start_results end_results)
                         | Some path \<Rightarrow>
                             if path = [] then Inr (disconnected start_results end_results)
                             else Inr (build_steps s path)))))"

text \<open>
  \<^verbatim>\<open>get_conflicts\<close>. The inner \<^verbatim>\<open>for ... else\<close> stops at the first relation whose
  type is \<^verbatim>\<open>refutes\<close> or \<^verbatim>\<open>contradicts\<close>.
\<close>

fun first_contradiction :: "relation list \<Rightarrow> relation option" where
  "first_contradiction [] = None"
| "first_contradiction (rel # rest) =
     (if type_str (type rel) \<in> {''refutes'', ''contradicts''} then Some rel
      else first_contradiction rest)"

definition candidate_conflicts :: "env \<Rightarrow> kg \<Rightarrow> atomic_unit \<times> real \<Rightarrow> conflict_result list" where
  "candidate_conflicts e s c =
     (case c of (u, score) \<Rightarrow>
        if score < 0.5 then []
        else
          (case first_contradiction (get_relations_for_unit s (unit_id u)) of
             Some rel \<Rightarrow>
               [\<lparr>conflicting_unit = u, relation = Some rel,
                 explanation = ''This unit has a '' @ [CHR 0x27] @ type_str (type rel)
                               @ [CHR 0x27] @ '' relationship: '' @ reasoning rel\<rparr>]
           | None \<Rightarrow>
               if score > 0.85 then
                 [\<lparr>conflicting_unit = u, relation = None,
                   explanation = ''Highly similar (score: '' @ format_2f e score
                                 @ '') but potentially conflicting content''\<rparr>]
               else []))"

fun conflicts_loop :: "env \<Rightarrow> kg \<Rightarrow> (atomic_unit \<times> real) list \<Rightarrow> conflict_result list" where
  "conflicts_loop e s [] = []"
| "conflicts_loop e s (c # rest) = candidate_conflicts e s c @ conflicts_loop e s rest"

definition get_conflicts :: "env \<Rightarrow> kg \<Rightarrow> string \<Rightarrow> error + conflict_result list" where
  "get_conflicts e s claim =
     (case semantic_search e s claim 10 of
        Inl err \<Rightarrow> Inl err
      | Inr similar \<Rightarrow> Inr (conflicts_loop e s similar))"

definition get_unit_connections :: "kg \<Rightarrow> uid \<Rightarrow> relation list" where
  "get_unit_connections s i = get_relations_for_unit s i"

record deletion_report =
  deleted_unit_id :: uid
  deleted_content :: string
  deleted_source :: "string option"
  deleted_relations_count :: int
  connections_removed :: int

definition delete_unit :: "kg \<Rightarrow> uid \<Rightarrow> (error + deletion_report) \<times> kg" where
  "delete_unit s i =
     (case get_unit s i of
        None \<Rightarrow> (Inl (ValueError (''Unit not found: '' @ i)), s)
      | Some u \<Rightarrow>
          let connections = get_unit_connections s i;
              s1 = s\<lparr>table := filter (\<lambda>r. row_id r \<noteq> i) (table s)\<rparr>;
              s2 = (if has_node (graph s1) i
                    then s1\<lparr>graph := remove_node (graph s1) i\<rparr> else s1);
              (deleted_relations, s3) = delete_relations_for_unit s2 i
          in (Inr \<lparr>deleted_unit_id = i, deleted_content = content u,
                   deleted_source = source_doi u,
                   deleted_relations_count = deleted_relations,
                   connections_removed = int (length connections)\<rparr>, s3))"

section \<open>Paths and the library contract\<close>

text \<open>
  A path of a graph from \<open>a\<close> to \<open>b\<close> is a non-empty list of nodes of the graph that
  starts at \<open>a\<close>, ends at \<open>b\<close> and follows an edge at every step; it is a shortest one
  when no path between the same ends has fewer nodes.
\<close>

definition is_path :: "digraph \<Rightarrow> uid list \<Rightarrow> uid \<Rightarrow> uid \<Rightarrow> bool" where
  "is_path h p a b =
     (p \<noteq> [] \<and> hd p = a \<and> last p = b \<and> list_all (has_node h) p
      \<and> successively (has_edge h) p)"

definition is_shortest_path :: "digraph \<Rightarrow> uid list \<Rightarrow> uid \<Rightarrow> uid \<Rightarrow> bool" where
  "is_shortest_path h p a b =
     (is_path h p a b \<and> (\<forall>q. is_path h q a b \<longrightarrow> length p \<le> length q))"

text \<open>
  What the graph library documents for \<^verbatim>\<open>shortest_path(G, source, target)\<close>: a list of
  nodes of a shortest path; \<^verbatim>\<open>NodeNotFound\<close> when an end is not a node of the graph;
  \<^verbatim>\<open>NetworkXNoPath\<close> when both are nodes and no path joins them.
\<close>

definition nx_contract :: "(digraph \<Rightarrow> uid \<Rightarrow> uid \<Rightarrow> sp_result) \<Rightarrow> digraph \<Rightarrow> bool" where
  "nx_contract sp h =
     (\<forall>a b. case sp h a b of
              Path p \<Rightarrow> is_shortest_path h p a b
            | NetworkXNoPath \<Rightarrow> has_node h a \<and> has_node h b \<and> (\<forall>q. \<not> is_path h q a b)
            | NodeNotFound \<Rightarrow> \<not> has_node h a \<or> \<not> has_node h b)"

text \<open>
  A reference implementation of that contract, used wherever a concrete library function is
  needed: breadth-first by walk length, the walks of each length kept in reverse, at most
  as many lengths as the node dictionary has entries.
\<close>

definition neighbours :: "digraph \<Rightarrow> uid \<Rightarrow> uid list" where
  "neighbours h u = map (snd \<circ> fst) (filter (\<lambda>(k, d). fst k = u \<and> has_node h (snd k)) (edges h))"

fun walks :: "digraph \<Rightarrow> uid \<Rightarrow> nat \<Rightarrow> uid list list" where
  "walks h a 0 = [[a]]"
| "walks h a (Suc k) =
     concat (map (\<lambda>p. map (\<lambda>v. v # p) (neighbours h (hd p))) (walks h a k))"

fun search :: "digraph \<Rightarrow> uid \<Rightarrow> uid \<Rightarrow> nat \<Rightarrow> nat \<Rightarrow> sp_result" where
  "search h a b k 0 = NetworkXNoPath"
| "search h a b k (Suc fuel) =
     (case find (\<lambda>p. hd p = b) (walks h a k) of
        Some p \<Rightarrow> Path (rev p)
      | None \<Rightarrow> search h a b (Suc k) fuel)"

definition reference_shortest_path :: "digraph \<Rightarrow> uid \<Rightarrow> uid \<Rightarrow> sp_result" where
  "reference_shortest_path h a b =
     (if \<not> has_node h a \<or> \<not> has_node h b then NodeNotFound
      else search h a b 0 (length (nodes h)))"

section \<open>Example data\<close>

text \<open>
  A toy provider and index: a text is embedded as its length, the index ranks the rows whose
  vector equals the query first (distance 0) and the others after them (distance 1).
\<close>

definition demo_env :: env where
  "demo_env =
     \<lparr>embed = (\<lambda>t. Inr [real (length t)]),
      vector_search = (\<lambda>qv rows. map (\<lambda>r. (r, Some 0)) (filter (\<lambda>r. row_vector r = qv) rows)
                                  @ map (\<lambda>r. (r, Some 1)) (filter (\<lambda>r. row_vector r \<noteq> qv) rows)),
      shortest_path = reference_shortest_path,
      format_2f = (\<lambda>x. if x = 0.9 then ''0.90'' else ''1.00'')\<rparr>"

text \<open>The engine right after construction on an empty data directory.\<close>

definition empty_kg :: kg where
  "empty_kg = \<lparr>table = [], graph = \<lparr>nodes = [], edges = []\<rparr>, relations = [],
               relations_file = None\<rparr>"

definition demo_row :: "uid \<Rightarrow> string \<Rightarrow> row" where
  "demo_row i t =
     \<lparr>row_id = i, row_content = t, row_source_doi = [], row_confidence = 1,
      row_created_at = ''2024-01-01T00:00:00'', row_vector = [real (length t)]\<rparr>"

text \<open>
  Three units \<open>a\<close>, \<open>b\<close>, \<open>c\<close> with the relations \<open>b implies a\<close> and \<open>b supports c\<close>,
  as the engine holds them after three ingests and two connects.
\<close>

definition demo_kg :: kg where
  "demo_kg =
     \<lparr>table = [demo_row ''a'' ''x'', demo_row ''b'' ''yy'', demo_row ''c'' ''zzz''],
      graph = \<lparr>nodes = [(''a'', Some ''x''), (''b'', Some ''yy''), (''c'', Some ''zzz'')],
               edges = [((''b'', ''a''), (Implies, ''ba'')), ((''b'', ''c''), (Supports, ''bc''))]\<rparr>,
      relations = [\<lparr>source_id = ''b'', target_id = ''a'', type = Implies, reasoning = ''ba''\<rparr>,
                   \<lparr>source_id = ''b'', target_id = ''c'', type = Supports, reasoning = ''bc''\<rparr>],
      relations_file = Some [\<lparr>source_id = ''b'', target_id = ''a'', type = Implies, reasoning = ''ba''\<rparr>,
                   \<lparr>source_id = ''b'', target_id = ''c'', type = Supports, reasoning = ''bc''\<rparr>]\<rparr>"

text \<open>
  A five-unit example: an index that reports the distances 0.05, 0.1, 0.3,
  0.4 and 0.7 for the rows in table order, and the store it is queried against: \<open>b\<close>
  implies \<open>a\<close>, \<open>c\<close> refutes \<open>a\<close>, \<open>a\<close> contradicts \<open>c\<close>, \<open>d\<close> contradicts \<open>c\<close>.
\<close>

definition conflict_env :: env where
  "conflict_env =
     demo_env\<lparr>vector_search :=
       (\<lambda>qv rows. zip rows [Some 0.05, Some 0.1, Some 0.3, Some 0.4, Some 0.7])\<rparr>"

definition conflict_kg :: kg where
  "conflict_kg =
     \<lparr>table = [demo_row ''a'' ''x'', demo_row ''b'' ''yy'', demo_row ''e'' ''v'',
               demo_row ''c'' ''zzz'', demo_row ''d'' ''wwww''],
      graph = \<lparr>nodes = [(''a'', Some ''x''), (''b'', Some ''yy''), (''e'', Some ''v''),
                        (''c'', Some ''zzz''), (''d'', Some ''wwww'')],
               edges = [((''b'', ''a''), (Implies, ''ba'')), ((''c'', ''a''), (Refutes, ''ca'')),
                        ((''a'', ''c''), (Contradicts, ''ac'')),
                        ((''d'', ''c''), (Contradicts, ''dc''))]\<rparr>,
      relations = [\<lparr>source_id = ''b'', target_id = ''a'', type = Implies, reasoning = ''ba''\<rparr>,
                   \<lparr>source_id = ''c'', target_id = ''a'', type = Refutes, reasoning = ''ca''\<rparr>,
                   \<lparr>source_id = ''a'', target_id = ''c'', type = Contradicts, reasoning = ''ac''\<rparr>,
                   \<lparr>source_id = ''d'', target_id = ''c'', type = Contradicts, reasoning = ''dc''\<rparr>],
      relations_file = None\<rparr>"

text \<open>
  The engine's constructor on an existing data directory: the table is the stored one, the
  relation list is read from \<^verbatim>\<open>relations.json\<close> when the file exists, and the graph is
  rebuilt from an empty one by \<^verbatim>\<open>_load_graph_from_persistence\<close>.
\<close>

definition restart :: "kg \<Rightarrow> kg" where
  "restart s =
     load_graph_from_persistence
       (s\<lparr>graph := \<lparr>nodes = [], edges = []\<rparr>,
          relations := (case relations_file s of None \<Rightarrow> [] | Some rs \<Rightarrow> rs)\<rparr>)"

text \<open>Two ingested units and no relation, before and after a restart.\<close>

definition isolated_kg :: kg where
  "isolated_kg =
     \<lparr>table = [demo_row ''a'' ''x'', demo_row ''c'' ''zzz''],
      graph = \<lparr>nodes = [(''a'', Some ''x''), (''c'', Some ''zzz'')], edges = []\<rparr>,
      relations = [], relations_file = None\<rparr>"


section \<open>The winning path of a lineage query\<close>

text \<open>
  \<open>winning_path e s a b p\<close>: both concepts resolve to at least one match, the candidate
  loops end without an error, and \<open>p\<close> is the non-empty \<^verbatim>\<open>best_path\<close> they leave.
\<close>

definition winning_path :: "env \<Rightarrow> kg \<Rightarrow> string \<Rightarrow> string \<Rightarrow> uid list \<Rightarrow> bool" where
  "winning_path e s a b p =
     (\<exists>start_results end_results l.
        semantic_search e s a 3 = Inr start_results \<and> start_results \<noteq> [] \<and>
        semantic_search e s b 3 = Inr end_results \<and> end_results \<noteq> [] \<and>
        start_loop e (graph s) start_results end_results (None, \<infinity>) = Inr (Some p, l) \<and>
        p \<noteq> [])"

section \<open>The candidate loops as one loop\<close>

text \<open>
  For the proofs, the two nested loops are read as one loop over the candidate pairs in
  iteration order (start candidate major, end candidate minor). \<open>yields\<close> is what one pair
  contributes when the library call does not fail: the path found, if the two candidates
  differ and a path exists. \<open>best_ok\<close> is the loop invariant: after the pairs \<open>seen\<close>,
  either no pair has yielded a path and the running best is still empty, or the running
  best is the path of some seen pair, strictly shorter than every path yielded before that
  pair and no longer than any path yielded after it.
\<close>

type_synonym candidate_pair = "(atomic_unit \<times> real) \<times> (atomic_unit \<times> real)"

fun pair_loop :: "env \<Rightarrow> digraph \<Rightarrow> candidate_pair list \<Rightarrow> best \<Rightarrow> error + best" where
  "pair_loop e g [] b = Inr b"
| "pair_loop e g (((start_unit, _), (end_unit, _)) # rest) b =
     (if unit_id start_unit = unit_id end_unit then pair_loop e g rest b
      else
        (case shortest_path e (to_undirected g) (unit_id start_unit) (unit_id end_unit) of
           Path path \<Rightarrow>
             pair_loop e g rest
               (if enat (length path) < snd b then (Some path, enat (length path)) else b)
         | NetworkXNoPath \<Rightarrow> pair_loop e g rest b
         | NodeNotFound \<Rightarrow> Inl NodeNotFoundError))"

definition yields :: "env \<Rightarrow> digraph \<Rightarrow> candidate_pair \<Rightarrow> uid list option" where
  "yields e g x =
     (if unit_id (fst (fst x)) = unit_id (fst (snd x)) then None
      else
        (case shortest_path e (to_undirected g) (unit_id (fst (fst x))) (unit_id (fst (snd x))) of
           Path path \<Rightarrow> Some path
         | NetworkXNoPath \<Rightarrow> None
         | NodeNotFound \<Rightarrow> None))"

definition best_ok :: "env \<Rightarrow> digraph \<Rightarrow> candidate_pair list \<Rightarrow> best \<Rightarrow> bool" where
  "best_ok e g seen b =
     (case fst b of
        None \<Rightarrow> snd b = \<infinity> \<and> list_all (\<lambda>x. yields e g x = None) seen
      | Some p \<Rightarrow>
          snd b = enat (length p) \<and>
          (\<exists>u x v. seen = u @ x # v \<and> yields e g x = Some p \<and>
             list_all (\<lambda>y. case yields e g y of None \<Rightarrow> True | Some q \<Rightarrow> length p < length q) u \<and>
             list_all (\<lambda>y. case yields e g y of None \<Rightarrow> True | Some q \<Rightarrow> length p \<le> length q) v))"

section \<open>Lookup through the filter text\<close>

text \<open>
  The engine does not compare ids itself: \<^verbatim>\<open>get_unit\<close> and the table deletion of
  \<^verbatim>\<open>delete_unit\<close> hand the index the filter text \<^verbatim>\<open>f"id = '{unit_id}'"\<close>, the id pasted
  between two quote characters without escaping. \<open>id_filter\<close> is that text. The index's
  reading of a filter text is a further collaborator, passed in as \<open>w\<close>: it either rejects
  the text (\<open>Inl\<close>, raised as a \<^verbatim>\<open>ValueError\<close>) or selects rows. The functions with the
  suffix \<open>where\<close> are the three operations written with this reading left open;
  \<open>get_unit\<close>, \<open>connect_concepts\<close> and \<open>delete_unit\<close> above are what they become when the
  filter text of an id means equality with that id, which \<open>where_contract\<close> asks of the
  index for every id without a quote character.
\<close>

definition id_filter :: "uid \<Rightarrow> string" where
  "id_filter i = ''id = '' @ [CHR 0x27] @ i @ [CHR 0x27]"

definition where_contract :: "(string \<Rightarrow> string + (row \<Rightarrow> bool)) \<Rightarrow> bool" where
  "where_contract w =
     (\<forall>i. CHR 0x27 \<notin> set i \<longrightarrow> w (id_filter i) = Inr (\<lambda>r. row_id r = i))"

definition get_unit_where ::
  "(string \<Rightarrow> string + (row \<Rightarrow> bool)) \<Rightarrow> kg \<Rightarrow> uid \<Rightarrow> error + atomic_unit option" where
  "get_unit_where w s i =
     (case w (id_filter i) of
        Inl msg \<Rightarrow> Inl (ValueError msg)
      | Inr matches \<Rightarrow>
          Inr (case filter matches (table s) of
                 [] \<Rightarrow> None
               | r # _ \<Rightarrow> Some (unit_of_row r)))"

definition connect_concepts_where ::
  "(string \<Rightarrow> string + (row \<Rightarrow> bool)) \<Rightarrow> kg \<Rightarrow> uid \<Rightarrow> uid \<Rightarrow> relation_type \<Rightarrow> string
     \<Rightarrow> (error + relation) \<times> kg" where
  "connect_concepts_where w s src tgt t why =
     (case get_unit_where w s src of
        Inl err \<Rightarrow> (Inl err, s)
      | Inr source \<Rightarrow>
          (case get_unit_where w s tgt of
             Inl err \<Rightarrow> (Inl err, s)
           | Inr target \<Rightarrow>
               if source = None then
                 (Inl (ValueError (''Source unit not found: '' @ src)), s)
               else if target = None then
                 (Inl (ValueError (''Target unit not found: '' @ tgt)), s)
               else
                 let rel = \<lparr>source_id = src, target_id = tgt, type = t, reasoning = why\<rparr>;
                     s1 = s\<lparr>graph := add_edge (graph s) src tgt t why\<rparr>
                 in (Inr rel, add_relation s1 rel)))"

definition delete_unit_where ::
  "(string \<Rightarrow> string + (row \<Rightarrow> bool)) \<Rightarrow> kg \<Rightarrow> uid \<Rightarrow> (error + deletion_report) \<times> kg" where
  "delete_unit_where w s i =
     (case get_unit_where w s i of
        Inl err \<Rightarrow> (Inl err, s)
      | Inr None \<Rightarrow> (Inl (ValueError (''Unit not found: '' @ i)), s)
      | Inr (Some u) \<Rightarrow>
          let connections = get_unit_connections s i in
          (case w (id_filter i) of
             Inl msg \<Rightarrow> (Inl (ValueError msg), s)
           | Inr matches \<Rightarrow>
               let s1 = s\<lparr>table := filter (\<lambda>r. \<not> matches r) (table s)\<rparr>;
                   s2 = (if has_node (graph s1) i
                         then s1\<lparr>graph := remove_node (graph s1) i\<rparr> else s1);
                   (deleted_relations, s3) = delete_relations_for_unit s2 i
               in (Inr \<lparr>deleted_unit_id = i, deleted_content = content u,
                        deleted_source = source_doi u,
                        deleted_relations_count = deleted_relations,
                        connections_removed = int (length connections)\<rparr>, s3)))"

text \<open>
  A reference reading of filter texts, used wherever a concrete index is needed. It covers
  the part of the filter language that the text of an id can reach: comparisons with \<open>=\<close>
  between the id column and string literals (a doubled quote inside a literal stands for one
  quote character), joined by \<^verbatim>\<open>OR\<close>. Any other text is rejected.
\<close>

datatype sql_token = Id_column | Literal string | Equals | Or_keyword

datatype lex_mode = Between | In_literal string | In_word string

definition word_token :: "string \<Rightarrow> sql_token option" where
  "word_token word =
     (if word = ''id'' then Some Id_column
      else if word = ''OR'' then Some Or_keyword
      else None)"

fun lex :: "lex_mode \<Rightarrow> sql_token list \<Rightarrow> string \<Rightarrow> sql_token list option" where
  "lex Between toks [] = Some toks"
| "lex (In_literal buf) toks [] = None"
| "lex (In_word word) toks [] =
     (case word_token word of None \<Rightarrow> None | Some t \<Rightarrow> Some (toks @ [t]))"
| "lex Between toks (c # cs) =
     (if c = CHR '' '' then lex Between toks cs
      else if c = CHR 0x27 then lex (In_literal []) toks cs
      else if c = CHR ''='' then lex Between (toks @ [Equals]) cs
      else lex (In_word [c]) toks cs)"
| "lex (In_literal buf) toks [c] =
     (if c = CHR 0x27 then Some (toks @ [Literal buf]) else None)"
| "lex (In_literal buf) toks (c # d # ds) =
     (if c = CHR 0x27 then
        (if d = CHR 0x27 then lex (In_literal (buf @ [CHR 0x27])) toks ds
         else lex Between (toks @ [Literal buf]) (d # ds))
      else lex (In_literal (buf @ [c])) toks (d # ds))"
| "lex (In_word word) toks (c # cs) =
     (if c = CHR '' '' then
        (case word_token word of
           None \<Rightarrow> None
         | Some t \<Rightarrow> lex Between (toks @ [t]) cs)
      else if c = CHR 0x27 then
        (case word_token word of
           None \<Rightarrow> None
         | Some t \<Rightarrow> lex (In_literal []) (toks @ [t]) cs)
      else if c = CHR ''='' then
        (case word_token word of
           None \<Rightarrow> None
         | Some t \<Rightarrow> lex Between (toks @ [t, Equals]) cs)
      else lex (In_word (word @ [c])) toks cs)"

fun operand :: "sql_token \<Rightarrow> (row \<Rightarrow> string) option" where
  "operand Id_column = Some row_id"
| "operand (Literal v) = Some (\<lambda>r. v)"
| "operand Equals = None"
| "operand Or_keyword = None"

fun parse :: "sql_token list \<Rightarrow> (row \<Rightarrow> bool) option" where
  "parse (a # Equals # b # rest) =
     (case (operand a, operand b) of
        (Some f, Some g) \<Rightarrow>
          (case rest of
             [] \<Rightarrow> Some (\<lambda>r. f r = g r)
           | Or_keyword # further \<Rightarrow>
               (case parse further of
                  None \<Rightarrow> None
                | Some others \<Rightarrow> Some (\<lambda>r. f r = g r \<or> others r))
           | _ \<Rightarrow> None)
      | _ \<Rightarrow> None)"
| "parse _ = None"

definition reference_where :: "string \<Rightarrow> string + (row \<Rightarrow> bool)" where
  "reference_where text =
     (case lex Between [] text of
        None \<Rightarrow> Inl (''invalid filter: '' @ text)
      | Some toks \<Rightarrow>
          (case parse toks of
             None \<Rightarrow> Inl (''invalid filter: '' @ text)
           | Some matches \<Rightarrow> Inr matches))"

text \<open>
  Two ids with a quote character, neither the id of a stored unit: one that closes the
  literal and continues the filter with an always-true comparison, and one that leaves the
  filter text malformed.
\<close>

definition injection_id :: uid where
  "injection_id = ''zz'' @ [CHR 0x27] @ '' OR '' @ [CHR 0x27] @ ''1'' @ [CHR 0x27] @ ''=''
                  @ [CHR 0x27] @ ''1''"

definition apostrophe_id :: uid where
  "apostrophe_id = ''it'' @ [CHR 0x27] @ ''s''"

section \<open>Unit lookup and ingestion\<close>

lemma get_unit_None_iff: "get_unit s i = None \<longleftrightarrow> i \<notin> row_id ` set (table s)"
proof -
  have "get_unit s i = None \<longleftrightarrow> filter (\<lambda>r. row_id r = i) (table s) = []"
    by (simp add: get_unit_def split: list.splits)
  then show ?thesis by (auto simp: filter_empty_conv)
qed

lemma get_unit_append_fresh:
  assumes "get_unit s i = None" and "row_id r = i"
  shows "get_unit (s\<lparr>table := table s @ [r], graph := g\<rparr>) i = Some (unit_of_row r)"
proof -
  have "filter (\<lambda>x. row_id x = i) (table s) = []"
    using assms(1) by (simp add: get_unit_def split: list.splits)
  then show ?thesis using assms(2) by (simp add: get_unit_def)
qed

lemma add_proposition_Inr:
  assumes "embed e text = Inr vec"
  shows "add_proposition e fresh now s text src conf given_id =
    (Inr \<lparr>unit_id = (case given_id of None \<Rightarrow> fresh | Some i \<Rightarrow> if i \<noteq> [] then i else fresh),
          content = text, source_doi = src, confidence = conf, vector = vec\<rparr>,
     s\<lparr>table := table s @
          [\<lparr>row_id = (case given_id of None \<Rightarrow> fresh | Some i \<Rightarrow> if i \<noteq> [] then i else fresh),
            row_content = text,
            row_source_doi = (case src of None \<Rightarrow> [] | Some d \<Rightarrow> d),
            row_confidence = conf, row_created_at = now, row_vector = vec\<rparr>],
       graph := add_node (graph s)
          (case given_id of None \<Rightarrow> fresh | Some i \<Rightarrow> if i \<noteq> [] then i else fresh) text\<rparr>)"
  using assms by (cases given_id) (simp_all add: add_proposition_def Let_def)

lemma demo_kg_reachable:
  "snd (connect_concepts (snd (connect_concepts
     (snd (add_proposition demo_env ''c'' ''2024-01-01T00:00:00''
        (snd (add_proposition demo_env ''b'' ''2024-01-01T00:00:00''
           (snd (add_proposition demo_env ''a'' ''2024-01-01T00:00:00'' empty_kg
                   ''x'' None 1 None))
           ''yy'' None 1 None))
        ''zzz'' None 1 None))
     ''b'' ''a'' Implies ''ba''))
     ''b'' ''c'' Supports ''bc'') = demo_kg"
  by (simp add: connect_concepts_def add_proposition_def demo_env_def empty_kg_def
      demo_kg_def demo_row_def Let_def get_unit_def add_node_def add_edge_def
      ensure_node_def add_relation_def save_relations_def)

text \<open>
  C3 (as stated): after \<^verbatim>\<open>add_proposition(content, source, confidence)\<close>,
  \<^verbatim>\<open>get_unit\<close> of the new id returns the supplied content, source and confidence, for
  every source including the empty string. This fails for the empty string: with content
  \<open>x\<close> and the empty string as source, the unit returned by the ingest carries the empty
  source and the unit read back carries no source.
\<close>

theorem add_proposition_empty_source_counterexample:
  "fst (add_proposition demo_env ''u1'' ''2024-01-01T00:00:00'' empty_kg ''x'' (Some []) 1 None)
     = Inr \<lparr>unit_id = ''u1'', content = ''x'', source_doi = Some [], confidence = 1,
            vector = [1]\<rparr>
   \<and> get_unit (snd (add_proposition demo_env ''u1'' ''2024-01-01T00:00:00'' empty_kg ''x''
                     (Some []) 1 None)) ''u1''
     = Some \<lparr>unit_id = ''u1'', content = ''x'', source_doi = None, confidence = 1,
             vector = [1]\<rparr>"
  by (simp add: add_proposition_def demo_env_def empty_kg_def Let_def get_unit_def
      unit_of_row_def add_node_def)

text \<open>
  C3 (amended): when \<^verbatim>\<open>add_proposition\<close> succeeds and the id of the new unit was not in
  the index before, \<^verbatim>\<open>get_unit\<close> of that id right afterwards returns a unit with the
  supplied content and confidence, and with the supplied source, except that an
  empty-string source reads back as absent.
\<close>

theorem add_proposition_then_get_unit:
  assumes "add_proposition e fresh now s text src conf given_id = (Inr u, s')"
    and "get_unit s (unit_id u) = None"
  shows "\<exists>u'. get_unit s' (unit_id u) = Some u' \<and> unit_id u' = unit_id u
              \<and> content u' = text \<and> confidence u' = conf
              \<and> source_doi u' = (if src = Some [] then None else src)"
proof (cases "embed e text")
  case (Inl msg)
  with assms(1) show ?thesis by (simp add: add_proposition_def)
next
  case (Inr vec)
  define i where "i = (case given_id of None \<Rightarrow> fresh
                       | Some j \<Rightarrow> if j \<noteq> [] then j else fresh)"
  define r where "r = \<lparr>row_id = i, row_content = text,
                        row_source_doi = (case src of None \<Rightarrow> [] | Some d \<Rightarrow> d),
                        row_confidence = conf, row_created_at = now, row_vector = vec\<rparr>"
  from assms(1) add_proposition_Inr[OF Inr, of fresh now s src conf given_id]
  have res: "unit_id u = i" "s' = s\<lparr>table := table s @ [r], graph := add_node (graph s) i text\<rparr>"
    by (auto simp: i_def r_def)
  have rid: "row_id r = unit_id u" by (simp add: r_def res(1))
  have "get_unit s' (unit_id u) = Some (unit_of_row r)"
    unfolding res(2) by (rule get_unit_append_fresh[OF assms(2) rid])
  moreover have "unit_id (unit_of_row r) = unit_id u"
    by (simp add: unit_of_row_def rid)
  moreover have "content (unit_of_row r) = text" "confidence (unit_of_row r) = conf"
    by (simp_all add: unit_of_row_def r_def)
  moreover have "source_doi (unit_of_row r) = (if src = Some [] then None else src)"
    by (cases src) (simp_all add: unit_of_row_def r_def)
  ultimately show ?thesis by simp
qed

theorem add_proposition_then_get_unit_witness:
  "add_proposition demo_env ''u1'' ''2024-01-01T00:00:00'' demo_kg ''w'' (Some ''doi:1'')
       (1 / 2) None
     = (Inr \<lparr>unit_id = ''u1'', content = ''w'', source_doi = Some ''doi:1'',
             confidence = 1 / 2, vector = [1]\<rparr>,
        demo_kg\<lparr>table := table demo_kg @
                   [\<lparr>row_id = ''u1'', row_content = ''w'', row_source_doi = ''doi:1'',
                     row_confidence = 1 / 2, row_created_at = ''2024-01-01T00:00:00'',
                     row_vector = [1]\<rparr>],
                 graph := add_node (graph demo_kg) ''u1'' ''w''\<rparr>)
   \<and> get_unit demo_kg ''u1'' = None
   \<and> (\<exists>u'. get_unit (demo_kg\<lparr>table := table demo_kg @
                   [\<lparr>row_id = ''u1'', row_content = ''w'', row_source_doi = ''doi:1'',
                     row_confidence = 1 / 2, row_created_at = ''2024-01-01T00:00:00'',
                     row_vector = [1]\<rparr>],
                 graph := add_node (graph demo_kg) ''u1'' ''w''\<rparr>) ''u1'' = Some u'
           \<and> unit_id u' = ''u1'' \<and> content u' = ''w'' \<and> confidence u' = 1 / 2
           \<and> source_doi u' = Some ''doi:1'')"
proof -
  have run: "add_proposition demo_env ''u1'' ''2024-01-01T00:00:00'' demo_kg ''w''
       (Some ''doi:1'') (1 / 2) None
     = (Inr \<lparr>unit_id = ''u1'', content = ''w'', source_doi = Some ''doi:1'',
             confidence = 1 / 2, vector = [1]\<rparr>,
        demo_kg\<lparr>table := table demo_kg @
                   [\<lparr>row_id = ''u1'', row_content = ''w'', row_source_doi = ''doi:1'',
                     row_confidence = 1 / 2, row_created_at = ''2024-01-01T00:00:00'',
                     row_vector = [1]\<rparr>],
                 graph := add_node (graph demo_kg) ''u1'' ''w''\<rparr>)"
    by (simp add: add_proposition_def demo_env_def Let_def)
  have fresh: "get_unit demo_kg ''u1'' = None"
    by (simp add: get_unit_def demo_kg_def demo_row_def)
  from add_proposition_then_get_unit[OF run] fresh run show ?thesis by simp
qed

section \<open>Relation creation\<close>



section \<open>Deletion\<close>

lemma delete_relations_count:
  "fst (delete_relations_for_unit s i) =
     int (length (filter (\<lambda>r. source_id r = i \<or> target_id r = i) (relations s)))"
proof -
  have "length (filter (\<lambda>r. source_id r = i \<or> target_id r = i) (relations s))
        + length (filter (\<lambda>r. \<not> (source_id r = i \<or> target_id r = i)) (relations s))
        = length (relations s)"
    by (rule sum_length_filter_compl)
  then show ?thesis
    by (simp add: delete_relations_for_unit_def Let_def)
qed

lemma delete_relations_relations:
  "relations (snd (delete_relations_for_unit s i)) =
     filter (\<lambda>r. source_id r \<noteq> i \<and> target_id r \<noteq> i) (relations s)"
  by (simp add: delete_relations_for_unit_def Let_def save_relations_def)

lemma delete_relations_table:
  "table (snd (delete_relations_for_unit s i)) = table s"
  by (simp add: delete_relations_for_unit_def Let_def save_relations_def)

lemma delete_unit_success:
  assumes "delete_unit s i = (Inr rep, s')"
  shows "\<exists>g. s' = snd (delete_relations_for_unit
                  (s\<lparr>table := filter (\<lambda>r. row_id r \<noteq> i) (table s), graph := g\<rparr>) i)
           \<and> deleted_relations_count rep = fst (delete_relations_for_unit
                  (s\<lparr>table := filter (\<lambda>r. row_id r \<noteq> i) (table s), graph := g\<rparr>) i)
           \<and> connections_removed rep = int (length (get_relations_for_unit s i))"
proof (cases "get_unit s i")
  case None
  with assms show ?thesis by (simp add: delete_unit_def)
next
  case (Some u)
  show ?thesis
  proof (cases "has_node (graph s) i")
    case True
    with Some assms show ?thesis
      by (intro exI[of _ "remove_node (graph s) i"])
         (auto simp: delete_unit_def Let_def get_unit_connections_def split: prod.splits)
  next
    case False
    with Some assms show ?thesis
      by (intro exI[of _ "graph s"])
         (auto simp: delete_unit_def Let_def get_unit_connections_def split: prod.splits)
  qed
qed

lemma delete_unit_succeeds:
  assumes "get_unit s i \<noteq> None"
  shows "\<exists>rep s'. delete_unit s i = (Inr rep, s')"
  using assms by (auto simp: delete_unit_def Let_def split: option.splits prod.splits)

lemma delete_unit_demo:
  "delete_unit demo_kg ''b'' =
     (Inr \<lparr>deleted_unit_id = ''b'', deleted_content = ''yy'', deleted_source = None,
           deleted_relations_count = 2, connections_removed = 2\<rparr>,
      \<lparr>table = [demo_row ''a'' ''x'', demo_row ''c'' ''zzz''],
       graph = \<lparr>nodes = [(''a'', Some ''x''), (''c'', Some ''zzz'')], edges = []\<rparr>,
       relations = [], relations_file = Some []\<rparr>)"
  by (simp add: delete_unit_def demo_kg_def demo_row_def get_unit_def unit_of_row_def
      get_unit_connections_def get_relations_for_unit_def has_node_def remove_node_def
      delete_relations_for_unit_def save_relations_def Let_def)

text \<open>
  C5: when \<^verbatim>\<open>delete_unit(id)\<close> succeeds, afterwards \<^verbatim>\<open>get_unit(id)\<close> is absent, no
  stored relation has the id as source or target, and the store's listing for the id is
  empty.
\<close>

theorem delete_unit_removes:
  assumes "delete_unit s i = (Inr rep, s')"
  shows "get_unit s' i = None \<and>
         (\<forall>r\<in>set (relations s'). source_id r \<noteq> i \<and> target_id r \<noteq> i) \<and>
         get_relations_for_unit s' i = []"
proof -
  from delete_unit_success[OF assms] obtain g where
    s': "s' = snd (delete_relations_for_unit
                  (s\<lparr>table := filter (\<lambda>r. row_id r \<noteq> i) (table s), graph := g\<rparr>) i)"
    by blast
  have t: "table s' = filter (\<lambda>r. row_id r \<noteq> i) (table s)"
    by (simp add: s' delete_relations_table)
  have r: "relations s' = filter (\<lambda>r. source_id r \<noteq> i \<and> target_id r \<noteq> i) (relations s)"
    by (simp add: s' delete_relations_relations)
  have "get_unit s' i = None"
    by (auto simp: get_unit_None_iff t)
  moreover have "\<forall>r\<in>set (relations s'). source_id r \<noteq> i \<and> target_id r \<noteq> i"
    by (simp add: r)
  moreover have "get_relations_for_unit s' i = []"
    by (auto simp: get_relations_for_unit_def r filter_empty_conv)
  ultimately show ?thesis by blast
qed

theorem delete_unit_removes_witness:
  "delete_unit demo_kg ''b'' =
     (Inr \<lparr>deleted_unit_id = ''b'', deleted_content = ''yy'', deleted_source = None,
           deleted_relations_count = 2, connections_removed = 2\<rparr>,
      \<lparr>table = [demo_row ''a'' ''x'', demo_row ''c'' ''zzz''],
       graph = \<lparr>nodes = [(''a'', Some ''x''), (''c'', Some ''zzz'')], edges = []\<rparr>,
       relations = [], relations_file = Some []\<rparr>)
   \<and> get_unit \<lparr>table = [demo_row ''a'' ''x'', demo_row ''c'' ''zzz''],
       graph = \<lparr>nodes = [(''a'', Some ''x''), (''c'', Some ''zzz'')], edges = []\<rparr>,
       relations = [], relations_file = Some []\<rparr> ''b'' = None
   \<and> get_relations_for_unit \<lparr>table = [demo_row ''a'' ''x'', demo_row ''c'' ''zzz''],
       graph = \<lparr>nodes = [(''a'', Some ''x''), (''c'', Some ''zzz'')], edges = []\<rparr>,
       relations = [], relations_file = Some []\<rparr> ''b'' = []"
  using delete_unit_removes[OF delete_unit_demo] delete_unit_demo by simp

text \<open>
  C10: in the report of a successful \<^verbatim>\<open>delete_unit(id)\<close>,
  \<^verbatim>\<open>deleted_relations_count\<close> equals \<^verbatim>\<open>connections_removed\<close>, and both are the number
  of stored relations that had the id as source or target when the call was made.
\<close>

theorem delete_unit_counts:
  assumes "delete_unit s i = (Inr rep, s')"
  shows "deleted_relations_count rep = connections_removed rep \<and>
         connections_removed rep =
           int (length (filter (\<lambda>r. source_id r = i \<or> target_id r = i) (relations s)))"
  using delete_unit_success[OF assms]
  by (auto simp: delete_relations_count get_relations_for_unit_def)

theorem delete_unit_counts_witness:
  "delete_unit demo_kg ''b'' =
     (Inr \<lparr>deleted_unit_id = ''b'', deleted_content = ''yy'', deleted_source = None,
           deleted_relations_count = 2, connections_removed = 2\<rparr>,
      \<lparr>table = [demo_row ''a'' ''x'', demo_row ''c'' ''zzz''],
       graph = \<lparr>nodes = [(''a'', Some ''x''), (''c'', Some ''zzz'')], edges = []\<rparr>,
       relations = [], relations_file = Some []\<rparr>)
   \<and> int (length (filter (\<lambda>r. source_id r = ''b'' \<or> target_id r = ''b'')
                          (relations demo_kg))) = 2"
  using delete_unit_counts[OF delete_unit_demo] delete_unit_demo by simp

section \<open>Ids that reach the filter text\<close>

lemma lex_literal_plain:
  assumes "CHR 0x27 \<notin> set v"
  shows "lex (In_literal buf) toks (v @ [CHR 0x27]) = Some (toks @ [Literal (buf @ v)])"
  using assms
proof (induction v arbitrary: buf)
  case Nil
  show ?case by simp
next
  case (Cons c v)
  from Cons.prems have c: "c \<noteq> CHR 0x27" and v: "CHR 0x27 \<notin> set v" by auto
  show ?case
  proof (cases v)
    case Nil
    with c show ?thesis by simp
  next
    case (Cons d ds)
    from Cons.IH[OF v, of "buf @ [c]"] c Cons show ?thesis by simp
  qed
qed

lemma lex_id_filter_plain:
  assumes "CHR 0x27 \<notin> set i"
  shows "lex Between [] (id_filter i) = Some [Id_column, Equals, Literal i]"
  using lex_literal_plain[OF assms, of "[]" "[Id_column, Equals]"]
  by (simp add: id_filter_def word_token_def)

lemma reference_where_contract: "where_contract reference_where"
  unfolding where_contract_def
  by (simp add: reference_where_def lex_id_filter_plain)

lemma get_unit_where_plain:
  assumes "w (id_filter i) = Inr (\<lambda>r. row_id r = i)"
  shows "get_unit_where w s i = Inr (get_unit s i)"
  using assms by (simp add: get_unit_where_def get_unit_def)

lemma connect_concepts_where_plain:
  assumes "w (id_filter src) = Inr (\<lambda>r. row_id r = src)"
    and "w (id_filter tgt) = Inr (\<lambda>r. row_id r = tgt)"
  shows "connect_concepts_where w s src tgt t why = connect_concepts s src tgt t why"
  using assms
  by (simp add: connect_concepts_where_def connect_concepts_def get_unit_where_def get_unit_def)

lemma delete_unit_where_plain:
  assumes "w (id_filter i) = Inr (\<lambda>r. row_id r = i)"
  shows "delete_unit_where w s i = delete_unit s i"
proof -
  have g: "get_unit_where w s i = Inr (get_unit s i)"
    using assms by (rule get_unit_where_plain)
  show ?thesis
  proof (cases "get_unit s i")
    case None
    then show ?thesis by (simp add: delete_unit_where_def delete_unit_def g)
  next
    case (Some u)
    then show ?thesis by (simp add: delete_unit_where_def delete_unit_def g assms)
  qed
qed

text \<open>
  For ids without a quote character, and an index that meets \<open>where_contract\<close>, a source
  or target id that is not the id of a stored unit makes \<^verbatim>\<open>connect_concepts\<close> fail
  with the not-found error naming it, the state unchanged.
\<close>

lemma connect_concepts_where_not_found:
  assumes "where_contract w"
    and "CHR 0x27 \<notin> set src" and "CHR 0x27 \<notin> set tgt"
    and "src \<notin> row_id ` set (table s) \<or> tgt \<notin> row_id ` set (table s)"
  shows "connect_concepts_where w s src tgt t why =
           (Inl (ValueError (if src \<notin> row_id ` set (table s)
                             then ''Source unit not found: '' @ src
                             else ''Target unit not found: '' @ tgt)), s)"
proof -
  from assms(1,2,3) have f: "w (id_filter src) = Inr (\<lambda>r. row_id r = src)"
    "w (id_filter tgt) = Inr (\<lambda>r. row_id r = tgt)"
    unfolding where_contract_def by blast+
  from assms(4) show ?thesis
    using connect_concepts_where_plain[of w src tgt s t why] f
    by (auto simp: connect_concepts_def get_unit_None_iff)
qed

lemma connect_concepts_where_not_found_demo:
  "connect_concepts_where reference_where demo_kg ''a'' ''q'' Refutes ''why''
     = (Inl (ValueError ''Target unit not found: q''), demo_kg)"
proof -
  have "CHR 0x27 \<notin> set ''a''" "CHR 0x27 \<notin> set ''q''" by simp_all
  moreover have "''a'' \<in> row_id ` set (table demo_kg)" "''q'' \<notin> row_id ` set (table demo_kg)"
    by (simp_all add: demo_kg_def demo_row_def)
  ultimately show ?thesis
    using connect_concepts_where_not_found[OF reference_where_contract,
        of "''a''" "''q''" demo_kg Refutes "''why''"]
    by simp
qed

text \<open>
  Whatever rows the index selects for the filter text of an id, lookup and deletion use the
  same text, so after a successful deletion the lookup of the id finds nothing, no stored
  relation touches the id, and the two counts of the report agree.
\<close>

lemma delete_unit_where_removes:
  assumes "delete_unit_where w s i = (Inr rep, s')"
  shows "get_unit_where w s' i = Inr None \<and>
         (\<forall>r\<in>set (relations s'). source_id r \<noteq> i \<and> target_id r \<noteq> i) \<and>
         get_relations_for_unit s' i = [] \<and>
         deleted_relations_count rep = connections_removed rep"
proof (cases "w (id_filter i)")
  case (Inl msg)
  with assms show ?thesis by (simp add: delete_unit_where_def get_unit_where_def)
next
  case (Inr matches)
  show ?thesis
  proof (cases "filter matches (table s)")
    case Nil
    with assms Inr show ?thesis by (simp add: delete_unit_where_def get_unit_where_def)
  next
    case (Cons r rs)
    define g where "g = (if has_node (graph s) i then remove_node (graph s) i else graph s)"
    define s2 where "s2 = s\<lparr>table := filter (\<lambda>r. \<not> matches r) (table s), graph := g\<rparr>"
    from assms Inr Cons have s': "s' = snd (delete_relations_for_unit s2 i)"
      and counts: "deleted_relations_count rep = fst (delete_relations_for_unit s2 i)"
        "connections_removed rep = int (length (get_relations_for_unit s i))"
      by (auto simp: delete_unit_where_def get_unit_where_def Let_def s2_def g_def
          get_unit_connections_def split: prod.splits if_splits)
    have t: "table s' = filter (\<lambda>r. \<not> matches r) (table s)"
      by (simp add: s' delete_relations_table s2_def)
    have rs: "relations s' = filter (\<lambda>r. source_id r \<noteq> i \<and> target_id r \<noteq> i) (relations s)"
      by (simp add: s' delete_relations_relations s2_def)
    have "filter matches (table s') = []"
      unfolding t by (simp add: filter_empty_conv)
    then have "get_unit_where w s' i = Inr None"
      by (simp add: get_unit_where_def Inr)
    moreover have "\<forall>r\<in>set (relations s'). source_id r \<noteq> i \<and> target_id r \<noteq> i"
      by (simp add: rs)
    moreover have "get_relations_for_unit s' i = []"
      by (auto simp: get_relations_for_unit_def rs filter_empty_conv)
    moreover have "deleted_relations_count rep = connections_removed rep"
      unfolding counts
      by (simp add: delete_relations_count get_relations_for_unit_def s2_def)
    ultimately show ?thesis by blast
  qed
qed

text \<open>
  C4: a source or target id that does not belong to a stored unit makes
  \<^verbatim>\<open>connect_concepts\<close> fail with the not-found error naming it and creates no edge. The
  engine meets this for ids without a quote character (\<open>connect_concepts_where_not_found\<close>).
  For an id with a quote character it does not, because the id is pasted into the filter
  text unescaped. With the three-unit example and the reference reading of filter texts:
  the id \<^verbatim>\<open>zz' OR '1'='1\<close> is the id of no stored unit, yet its lookup returns unit \<open>a\<close>,
  and \<^verbatim>\<open>connect_concepts\<close> with it as source succeeds, adding an edge and a stored
  relation from that id; the id \<^verbatim>\<open>it's\<close> makes the lookup fail on the filter text, and
  \<^verbatim>\<open>connect_concepts\<close> ends in that error instead of the not-found error.
\<close>

theorem connect_concepts_quoted_id:
  "injection_id \<notin> row_id ` set (table demo_kg)
   \<and> apostrophe_id \<notin> row_id ` set (table demo_kg)
   \<and> get_unit_where reference_where demo_kg injection_id
       = Inr (Some (unit_of_row (demo_row ''a'' ''x'')))
   \<and> connect_concepts_where reference_where demo_kg injection_id ''c'' Supports ''why''
       = (Inr \<lparr>source_id = injection_id, target_id = ''c'', type = Supports,
               reasoning = ''why''\<rparr>,
          demo_kg\<lparr>graph := add_edge (graph demo_kg) injection_id ''c'' Supports ''why'',
                  relations := relations demo_kg @
                    [\<lparr>source_id = injection_id, target_id = ''c'', type = Supports,
                      reasoning = ''why''\<rparr>],
                  relations_file := Some (relations demo_kg @
                    [\<lparr>source_id = injection_id, target_id = ''c'', type = Supports,
                      reasoning = ''why''\<rparr>])\<rparr>)
   \<and> has_edge (add_edge (graph demo_kg) injection_id ''c'' Supports ''why'') injection_id ''c''
   \<and> connect_concepts_where reference_where demo_kg apostrophe_id ''c'' Supports ''why''
       = (Inl (ValueError (''invalid filter: '' @ id_filter apostrophe_id)), demo_kg)"
proof -
  have "injection_id \<notin> row_id ` set (table demo_kg)"
    "apostrophe_id \<notin> row_id ` set (table demo_kg)"
    by code_simp+
  moreover have "get_unit_where reference_where demo_kg injection_id
       = Inr (Some (unit_of_row (demo_row ''a'' ''x'')))"
    by code_simp
  moreover have "connect_concepts_where reference_where demo_kg injection_id ''c'' Supports ''why''
       = (Inr \<lparr>source_id = injection_id, target_id = ''c'', type = Supports,
               reasoning = ''why''\<rparr>,
          demo_kg\<lparr>graph := add_edge (graph demo_kg) injection_id ''c'' Supports ''why'',
                  relations := relations demo_kg @
                    [\<lparr>source_id = injection_id, target_id = ''c'', type = Supports,
                      reasoning = ''why''\<rparr>],
                  relations_file := Some (relations demo_kg @
                    [\<lparr>source_id = injection_id, target_id = ''c'', type = Supports,
                      reasoning = ''why''\<rparr>])\<rparr>)"
    by code_simp
  moreover have
    "has_edge (add_edge (graph demo_kg) injection_id ''c'' Supports ''why'') injection_id ''c''"
    by code_simp
  moreover have
    "connect_concepts_where reference_where demo_kg apostrophe_id ''c'' Supports ''why''
       = (Inl (ValueError (''invalid filter: '' @ id_filter apostrophe_id)), demo_kg)"
    by code_simp
  ultimately show ?thesis by blast
qed

section \<open>Conflict detection\<close>

lemma type_str_contradicting:
  "type_str t \<in> {''refutes'', ''contradicts''} \<longleftrightarrow> t = Refutes \<or> t = Contradicts"
  by (cases t) simp_all

lemma first_contradiction_Cons:
  "first_contradiction (r # rs) =
     (if type r = Refutes \<or> type r = Contradicts then Some r else first_contradiction rs)"
  by (cases "type r") simp_all

lemma first_contradiction_filter:
  "first_contradiction (filter P rs) =
     find (\<lambda>r. P r \<and> (type r = Refutes \<or> type r = Contradicts)) rs"
  by (induction rs) (simp_all add: first_contradiction_Cons del: first_contradiction.simps(2))

lemma first_contradiction_for_unit:
  "first_contradiction (get_relations_for_unit s i) =
     find (\<lambda>r. (source_id r = i \<or> target_id r = i) \<and> (type r = Refutes \<or> type r = Contradicts))
          (relations s)"
  unfolding get_relations_for_unit_def by (rule first_contradiction_filter)

lemma conflicts_loop_concat:
  "conflicts_loop e s cs = concat (map (candidate_conflicts e s) cs)"
  by (induction cs) simp_all

lemma semantic_search_length:
  assumes "semantic_search e s q limit = Inr res"
  shows "length res \<le> limit"
  using assms by (auto simp: semantic_search_def split: sum.splits)

lemma conflict_search_demo:
  "semantic_search conflict_env conflict_kg ''x'' 10 =
     Inr [(unit_of_row (demo_row ''a'' ''x''), 0.95), (unit_of_row (demo_row ''b'' ''yy''), 0.9),
          (unit_of_row (demo_row ''e'' ''v''), 0.7), (unit_of_row (demo_row ''c'' ''zzz''), 0.6),
          (unit_of_row (demo_row ''d'' ''wwww''), 0.3)]"
  by (simp add: semantic_search_def conflict_env_def demo_env_def conflict_kg_def)

text \<open>
  C7: \<^verbatim>\<open>get_conflicts\<close> looks at the at most 10 candidates of its semantic search and
  returns, in candidate order, what each candidate contributes, which is at most one
  result: nothing when the similarity is below 0.5; otherwise a result carrying the first
  stored relation that touches the unit and has type refutes or contradicts, if there is
  one; otherwise, only when the similarity exceeds 0.85, a result without relation whose
  explanation contains the formatted score; otherwise nothing.
\<close>

theorem get_conflicts_per_candidate:
  assumes "semantic_search e s claim 10 = Inr similar"
  shows "length similar \<le> 10 \<and>
         get_conflicts e s claim = Inr (concat (map (candidate_conflicts e s) similar)) \<and>
         (\<forall>(u, score) \<in> set similar.
            length (candidate_conflicts e s (u, score)) \<le> 1 \<and>
            candidate_conflicts e s (u, score) =
              (if score < 0.5 then []
               else case find (\<lambda>r. (source_id r = unit_id u \<or> target_id r = unit_id u)
                                    \<and> (type r = Refutes \<or> type r = Contradicts)) (relations s) of
                      Some rel \<Rightarrow>
                        [\<lparr>conflicting_unit = u, relation = Some rel,
                          explanation = ''This unit has a '' @ [CHR 0x27] @ type_str (type rel)
                                        @ [CHR 0x27] @ '' relationship: '' @ reasoning rel\<rparr>]
                    | None \<Rightarrow>
                        if score > 0.85 then
                          [\<lparr>conflicting_unit = u, relation = None,
                            explanation = ''Highly similar (score: '' @ format_2f e score
                                          @ '') but potentially conflicting content''\<rparr>]
                        else []))"
proof -
  have len: "length similar \<le> 10"
    using assms by (rule semantic_search_length)
  have res: "get_conflicts e s claim = Inr (concat (map (candidate_conflicts e s) similar))"
    using assms by (simp add: get_conflicts_def conflicts_loop_concat)
  have one: "length (candidate_conflicts e s (u, score)) \<le> 1" for u score
    by (simp add: candidate_conflicts_def split: option.splits)
  have each: "candidate_conflicts e s (u, score) =
              (if score < 0.5 then []
               else case find (\<lambda>r. (source_id r = unit_id u \<or> target_id r = unit_id u)
                                    \<and> (type r = Refutes \<or> type r = Contradicts)) (relations s) of
                      Some rel \<Rightarrow>
                        [\<lparr>conflicting_unit = u, relation = Some rel,
                          explanation = ''This unit has a '' @ [CHR 0x27] @ type_str (type rel)
                                        @ [CHR 0x27] @ '' relationship: '' @ reasoning rel\<rparr>]
                    | None \<Rightarrow>
                        if score > 0.85 then
                          [\<lparr>conflicting_unit = u, relation = None,
                            explanation = ''Highly similar (score: '' @ format_2f e score
                                          @ '') but potentially conflicting content''\<rparr>]
                        else [])" for u score
    by (simp add: candidate_conflicts_def first_contradiction_for_unit)
  from len res one each show ?thesis by blast
qed

theorem get_conflicts_per_candidate_witness:
  "semantic_search conflict_env conflict_kg ''x'' 10 =
     Inr [(unit_of_row (demo_row ''a'' ''x''), 0.95), (unit_of_row (demo_row ''b'' ''yy''), 0.9),
          (unit_of_row (demo_row ''e'' ''v''), 0.7), (unit_of_row (demo_row ''c'' ''zzz''), 0.6),
          (unit_of_row (demo_row ''d'' ''wwww''), 0.3)]
   \<and> get_conflicts conflict_env conflict_kg ''x'' =
     Inr [\<lparr>conflicting_unit = unit_of_row (demo_row ''a'' ''x''),
           relation = Some \<lparr>source_id = ''c'', target_id = ''a'', type = Refutes,
                             reasoning = ''ca''\<rparr>,
           explanation = ''This unit has a '' @ [CHR 0x27] @ ''refutes'' @ [CHR 0x27]
                         @ '' relationship: ca''\<rparr>,
          \<lparr>conflicting_unit = unit_of_row (demo_row ''b'' ''yy''), relation = None,
           explanation = ''Highly similar (score: 0.90) but potentially conflicting content''\<rparr>,
          \<lparr>conflicting_unit = unit_of_row (demo_row ''c'' ''zzz''),
           relation = Some \<lparr>source_id = ''c'', target_id = ''a'', type = Refutes,
                             reasoning = ''ca''\<rparr>,
           explanation = ''This unit has a '' @ [CHR 0x27] @ ''refutes'' @ [CHR 0x27]
                         @ '' relationship: ca''\<rparr>]"
proof -
  note main = get_conflicts_per_candidate[OF conflict_search_demo]
  have rels: "relations conflict_kg =
      [\<lparr>source_id = ''b'', target_id = ''a'', type = Implies, reasoning = ''ba''\<rparr>,
       \<lparr>source_id = ''c'', target_id = ''a'', type = Refutes, reasoning = ''ca''\<rparr>,
       \<lparr>source_id = ''a'', target_id = ''c'', type = Contradicts, reasoning = ''ac''\<rparr>,
       \<lparr>source_id = ''d'', target_id = ''c'', type = Contradicts, reasoning = ''dc''\<rparr>]"
    by (simp add: conflict_kg_def)
  have fmt: "format_2f conflict_env 0.9 = ''0.90''"
    by (simp add: conflict_env_def demo_env_def)
  from main have each: "\<forall>(u, score) \<in> set [(unit_of_row (demo_row ''a'' ''x''), 0.95),
          (unit_of_row (demo_row ''b'' ''yy''), 0.9),
          (unit_of_row (demo_row ''e'' ''v''), 0.7), (unit_of_row (demo_row ''c'' ''zzz''), 0.6),
          (unit_of_row (demo_row ''d'' ''wwww''), 0.3)].
            candidate_conflicts conflict_env conflict_kg (u, score) =
              (if score < 0.5 then []
               else case find (\<lambda>r. (source_id r = unit_id u \<or> target_id r = unit_id u)
                                    \<and> (type r = Refutes \<or> type r = Contradicts))
                          (relations conflict_kg) of
                      Some rel \<Rightarrow>
                        [\<lparr>conflicting_unit = u, relation = Some rel,
                          explanation = ''This unit has a '' @ [CHR 0x27] @ type_str (type rel)
                                        @ [CHR 0x27] @ '' relationship: '' @ reasoning rel\<rparr>]
                    | None \<Rightarrow>
                        if score > 0.85 then
                          [\<lparr>conflicting_unit = u, relation = None,
                            explanation = ''Highly similar (score: '' @ format_2f conflict_env score
                                          @ '') but potentially conflicting content''\<rparr>]
                        else [])"
    by blast
  have a: "candidate_conflicts conflict_env conflict_kg (unit_of_row (demo_row ''a'' ''x''), 0.95)
     = [\<lparr>conflicting_unit = unit_of_row (demo_row ''a'' ''x''),
           relation = Some \<lparr>source_id = ''c'', target_id = ''a'', type = Refutes,
                             reasoning = ''ca''\<rparr>,
           explanation = ''This unit has a '' @ [CHR 0x27] @ ''refutes'' @ [CHR 0x27]
                         @ '' relationship: ca''\<rparr>]"
    using each by (simp add: rels unit_of_row_def demo_row_def)
  have b: "candidate_conflicts conflict_env conflict_kg (unit_of_row (demo_row ''b'' ''yy''), 0.9)
     = [\<lparr>conflicting_unit = unit_of_row (demo_row ''b'' ''yy''), relation = None,
           explanation = ''Highly similar (score: 0.90) but potentially conflicting content''\<rparr>]"
    using each fmt by (simp add: rels unit_of_row_def demo_row_def)
  have e: "candidate_conflicts conflict_env conflict_kg (unit_of_row (demo_row ''e'' ''v''), 0.7)
     = []"
    using each by (simp add: rels unit_of_row_def demo_row_def)
  have c: "candidate_conflicts conflict_env conflict_kg (unit_of_row (demo_row ''c'' ''zzz''), 0.6)
     = [\<lparr>conflicting_unit = unit_of_row (demo_row ''c'' ''zzz''),
           relation = Some \<lparr>source_id = ''c'', target_id = ''a'', type = Refutes,
                             reasoning = ''ca''\<rparr>,
           explanation = ''This unit has a '' @ [CHR 0x27] @ ''refutes'' @ [CHR 0x27]
                         @ '' relationship: ca''\<rparr>]"
    using each by (simp add: rels unit_of_row_def demo_row_def)
  have d: "candidate_conflicts conflict_env conflict_kg (unit_of_row (demo_row ''d'' ''wwww''), 0.3)
     = []"
    using each by (simp add: rels unit_of_row_def demo_row_def)
  from main have "get_conflicts conflict_env conflict_kg ''x'' =
     Inr (concat (map (candidate_conflicts conflict_env conflict_kg)
       [(unit_of_row (demo_row ''a'' ''x''), 0.95), (unit_of_row (demo_row ''b'' ''yy''), 0.9),
          (unit_of_row (demo_row ''e'' ''v''), 0.7), (unit_of_row (demo_row ''c'' ''zzz''), 0.6),
          (unit_of_row (demo_row ''d'' ''wwww''), 0.3)]))"
    by blast
  with a b e c d conflict_search_demo show ?thesis by simp
qed

section \<open>Lineage steps\<close>


lemma winning_path_find_path:
  assumes "winning_path e s a b p"
  shows "find_path e s a b = Inr (build_steps s p)"
  using assms by (auto simp: winning_path_def find_path_def)




lemma demo_search_x:
  "semantic_search demo_env demo_kg ''x'' 3 =
     Inr [(unit_of_row (demo_row ''a'' ''x''), 1), (unit_of_row (demo_row ''b'' ''yy''), 0),
          (unit_of_row (demo_row ''c'' ''zzz''), 0)]"
  by code_simp

lemma demo_search_zzz:
  "semantic_search demo_env demo_kg ''zzz'' 3 =
     Inr [(unit_of_row (demo_row ''c'' ''zzz''), 1), (unit_of_row (demo_row ''a'' ''x''), 0),
          (unit_of_row (demo_row ''b'' ''yy''), 0)]"
  by code_simp

lemma demo_start_loop:
  "start_loop demo_env (graph demo_kg)
     [(unit_of_row (demo_row ''a'' ''x''), 1), (unit_of_row (demo_row ''b'' ''yy''), 0),
      (unit_of_row (demo_row ''c'' ''zzz''), 0)]
     [(unit_of_row (demo_row ''c'' ''zzz''), 1), (unit_of_row (demo_row ''a'' ''x''), 0),
      (unit_of_row (demo_row ''b'' ''yy''), 0)] (None, \<infinity>)
   = Inr (Some [''a'', ''b''], 2)"
  by code_simp

lemma demo_winning_path: "winning_path demo_env demo_kg ''x'' ''zzz'' [''a'', ''b'']"
  unfolding winning_path_def
  using demo_search_x demo_search_zzz demo_start_loop by fastforce










text \<open>
  C6: when both concepts resolve and no candidate pair is joined by a path, the result is
  the two-step disconnected answer and no error is raised. The engine meets this while every
  candidate is a node of the graph, as for two units ingested in the running process; after
  a restart the graph is rebuilt from the relations only, units without relations are no
  longer nodes, the library call fails with \<^verbatim>\<open>NodeNotFound\<close>, which the loop does not
  catch, and the query ends in that error.
\<close>

theorem find_path_isolated_after_restart:
  "isolated_kg =
     snd (add_proposition demo_env ''c'' ''2024-01-01T00:00:00''
           (snd (add_proposition demo_env ''a'' ''2024-01-01T00:00:00'' empty_kg
                   ''x'' None 1 None))
           ''zzz'' None 1 None)
   \<and> find_path demo_env isolated_kg ''x'' ''zzz'' =
       Inr [\<lparr>unit = unit_of_row (demo_row ''a'' ''x''), relation_to_next = None\<rparr>,
            \<lparr>unit = unit_of_row (demo_row ''c'' ''zzz''), relation_to_next = None\<rparr>]
   \<and> graph (restart isolated_kg) = \<lparr>nodes = [], edges = []\<rparr>
   \<and> semantic_search demo_env (restart isolated_kg) ''x'' 3 =
       Inr [(unit_of_row (demo_row ''a'' ''x''), 1), (unit_of_row (demo_row ''c'' ''zzz''), 0)]
   \<and> semantic_search demo_env (restart isolated_kg) ''zzz'' 3 =
       Inr [(unit_of_row (demo_row ''c'' ''zzz''), 1), (unit_of_row (demo_row ''a'' ''x''), 0)]
   \<and> find_path demo_env (restart isolated_kg) ''x'' ''zzz'' = Inl NodeNotFoundError"
proof -
  have "isolated_kg =
     snd (add_proposition demo_env ''c'' ''2024-01-01T00:00:00''
           (snd (add_proposition demo_env ''a'' ''2024-01-01T00:00:00'' empty_kg
                   ''x'' None 1 None))
           ''zzz'' None 1 None)"
    by (simp add: add_proposition_def demo_env_def empty_kg_def isolated_kg_def demo_row_def
        Let_def add_node_def)
  moreover have "find_path demo_env isolated_kg ''x'' ''zzz'' =
       Inr [\<lparr>unit = unit_of_row (demo_row ''a'' ''x''), relation_to_next = None\<rparr>,
            \<lparr>unit = unit_of_row (demo_row ''c'' ''zzz''), relation_to_next = None\<rparr>]"
    by code_simp
  moreover have "graph (restart isolated_kg) = \<lparr>nodes = [], edges = []\<rparr>"
    by code_simp
  moreover have "semantic_search demo_env (restart isolated_kg) ''x'' 3 =
       Inr [(unit_of_row (demo_row ''a'' ''x''), 1), (unit_of_row (demo_row ''c'' ''zzz''), 0)]"
    by code_simp
  moreover have "semantic_search demo_env (restart isolated_kg) ''zzz'' 3 =
       Inr [(unit_of_row (demo_row ''c'' ''zzz''), 1), (unit_of_row (demo_row ''a'' ''x''), 0)]"
    by code_simp
  moreover have "find_path demo_env (restart isolated_kg) ''x'' ''zzz'' = Inl NodeNotFoundError"
    by code_simp
  ultimately show ?thesis by blast
qed

section \<open>Selection of the winning path\<close>

lemma pair_loop_append:
  "pair_loop e g (xs @ ys) b =
     (case pair_loop e g xs b of Inl err \<Rightarrow> Inl err | Inr b' \<Rightarrow> pair_loop e g ys b')"
proof (induction xs arbitrary: b)
  case Nil
  show ?case by simp
next
  case (Cons x xs)
  obtain su sc eu ec where x: "x = ((su, sc), (eu, ec))" by (cases x) auto
  show ?case
    unfolding x by (simp add: Cons.IH split: sp_result.splits)
qed

lemma end_loop_pair_loop:
  "end_loop e g su ers b = pair_loop e g (map (Pair (su, sc)) ers) b"
proof (induction ers arbitrary: b)
  case Nil
  show ?case by simp
next
  case (Cons x ers)
  obtain eu ec where x: "x = (eu, ec)" by (cases x)
  show ?case
    unfolding x by (simp add: Cons.IH split: sp_result.splits)
qed

lemma start_loop_pair_loop:
  "start_loop e g srs ers b = pair_loop e g (List.product srs ers) b"
proof (induction srs arbitrary: b)
  case Nil
  show ?case by simp
next
  case (Cons x srs)
  obtain su sc where x: "x = (su, sc)" by (cases x)
  show ?case
    unfolding x
    by (simp add: pair_loop_append end_loop_pair_loop[of e g su _ _ sc] Cons.IH
        split: sum.splits)
qed

lemma best_ok_None:
  "best_ok e g seen (None, l) \<longleftrightarrow> l = \<infinity> \<and> list_all (\<lambda>x. yields e g x = None) seen"
  by (simp add: best_ok_def)

lemma best_ok_Some:
  "best_ok e g seen (Some p, l) \<longleftrightarrow>
     l = enat (length p) \<and>
     (\<exists>u x v. seen = u @ x # v \<and> yields e g x = Some p \<and>
        list_all (\<lambda>y. case yields e g y of None \<Rightarrow> True | Some q \<Rightarrow> length p < length q) u \<and>
        list_all (\<lambda>y. case yields e g y of None \<Rightarrow> True | Some q \<Rightarrow> length p \<le> length q) v)"
  by (simp add: best_ok_def)

lemma best_ok_extend:
  assumes "best_ok e g seen (bp, l)"
    and "case yields e g x of None \<Rightarrow> True | Some q \<Rightarrow> \<not> enat (length q) < l"
  shows "best_ok e g (seen @ [x]) (bp, l)"
proof (cases bp)
  case None
  with assms show ?thesis by (auto simp: best_ok_None split: option.splits)
next
  case (Some p)
  from assms(1)[unfolded Some best_ok_Some] obtain u y v where
    l: "l = enat (length p)" and
    d: "seen = u @ y # v" "yields e g y = Some p"
    "list_all (\<lambda>y. case yields e g y of None \<Rightarrow> True | Some q \<Rightarrow> length p < length q) u"
    "list_all (\<lambda>y. case yields e g y of None \<Rightarrow> True | Some q \<Rightarrow> length p \<le> length q) v"
    by blast
  have x: "case yields e g x of None \<Rightarrow> True | Some q \<Rightarrow> length p \<le> length q"
    using assms(2) l by (simp split: option.splits)
  have 1: "seen @ [x] = u @ y # (v @ [x])" by (simp add: d(1))
  have 2: "list_all (\<lambda>y. case yields e g y of None \<Rightarrow> True | Some q \<Rightarrow> length p \<le> length q)
             (v @ [x])"
    using d(4) x by simp
  show ?thesis
    unfolding Some best_ok_Some using l 1 d(2) d(3) 2 by blast
qed

lemma best_ok_skip:
  assumes "best_ok e g seen b" and "yields e g x = None"
  shows "best_ok e g (seen @ [x]) b"
  using best_ok_extend[of e g seen "fst b" "snd b" x] assms by simp

lemma best_ok_keep:
  assumes "best_ok e g seen b" and "yields e g x = Some q" and "\<not> enat (length q) < snd b"
  shows "best_ok e g (seen @ [x]) b"
  using best_ok_extend[of e g seen "fst b" "snd b" x] assms by simp

lemma best_ok_replace:
  assumes "best_ok e g seen b" and "yields e g x = Some q" and "enat (length q) < snd b"
  shows "best_ok e g (seen @ [x]) (Some q, enat (length q))"
proof -
  obtain bp l where b: "b = (bp, l)" by (cases b)
  have before: "case yields e g z of None \<Rightarrow> True | Some r \<Rightarrow> length q < length r"
    if z: "z \<in> set seen" for z
  proof (cases bp)
    case None
    with assms(1) b have "list_all (\<lambda>x. yields e g x = None) seen"
      by (simp add: best_ok_None)
    with z have "yields e g z = None" by (simp add: list_all_iff)
    then show ?thesis by simp
  next
    case (Some p)
    from assms(1)[unfolded b Some best_ok_Some] obtain u y v where
      l: "l = enat (length p)" and
      d: "seen = u @ y # v" "yields e g y = Some p"
      "list_all (\<lambda>y. case yields e g y of None \<Rightarrow> True | Some q \<Rightarrow> length p < length q) u"
      "list_all (\<lambda>y. case yields e g y of None \<Rightarrow> True | Some q \<Rightarrow> length p \<le> length q) v"
      by blast
    from assms(3) b l have lt: "length q < length p" by simp
    from z d(1) consider "z \<in> set u" | "z = y" | "z \<in> set v" by auto
    then show ?thesis
    proof cases
      case 1
      with d(3) have "case yields e g z of None \<Rightarrow> True | Some r \<Rightarrow> length p < length r"
        by (simp add: list_all_iff)
      with lt show ?thesis by (cases "yields e g z") simp_all
    next
      case 2
      with d(2) lt show ?thesis by simp
    next
      case 3
      with d(4) have "case yields e g z of None \<Rightarrow> True | Some r \<Rightarrow> length p \<le> length r"
        by (simp add: list_all_iff)
      with lt show ?thesis by (cases "yields e g z") simp_all
    qed
  qed
  then have 1:
    "list_all (\<lambda>y. case yields e g y of None \<Rightarrow> True | Some r \<Rightarrow> length q < length r) seen"
    by (simp add: list_all_iff)
  have 2: "seen @ [x] = seen @ x # []" by simp
  have 3: "list_all (\<lambda>y. case yields e g y of None \<Rightarrow> True | Some r \<Rightarrow> length q \<le> length r) []"
    by simp
  show ?thesis
    unfolding best_ok_Some using 1 2 3 assms(2) by blast
qed

lemma pair_loop_best_ok:
  assumes "pair_loop e g rest b = Inr b'" and "best_ok e g seen b"
  shows "best_ok e g (seen @ rest) b'"
  using assms
proof (induction rest arbitrary: seen b)
  case Nil
  then show ?case by simp
next
  case (Cons x rest)
  obtain su sc eu ec where x: "x = ((su, sc), (eu, ec))" by (cases x) auto
  have app: "seen @ x # rest = (seen @ [x]) @ rest" by simp
  show ?case
  proof (cases "unit_id su = unit_id eu")
    case True
    then have y: "yields e g x = None" by (simp add: yields_def x)
    from Cons.prems(1) True have "pair_loop e g rest b = Inr b'" by (simp add: x)
    from Cons.IH[OF this best_ok_skip[OF Cons.prems(2) y]] show ?thesis
      unfolding app .
  next
    case False
    show ?thesis
    proof (cases "shortest_path e (to_undirected g) (unit_id su) (unit_id eu)")
      case (Path q)
      with False have y: "yields e g x = Some q" by (simp add: yields_def x)
      show ?thesis
      proof (cases "enat (length q) < snd b")
        case True
        with Cons.prems(1) False Path
        have "pair_loop e g rest (Some q, enat (length q)) = Inr b'" by (simp add: x)
        from Cons.IH[OF this best_ok_replace[OF Cons.prems(2) y True]] show ?thesis
          unfolding app .
      next
        case nlt: False
        with Cons.prems(1) False Path
        have "pair_loop e g rest b = Inr b'" by (simp add: x)
        from Cons.IH[OF this best_ok_keep[OF Cons.prems(2) y nlt]] show ?thesis
          unfolding app .
      qed
    next
      case NetworkXNoPath
      with False have y: "yields e g x = None" by (simp add: yields_def x)
      from Cons.prems(1) False NetworkXNoPath have "pair_loop e g rest b = Inr b'"
        by (simp add: x)
      from Cons.IH[OF this best_ok_skip[OF Cons.prems(2) y]] show ?thesis
        unfolding app .
    next
      case NodeNotFound
      with Cons.prems(1) False show ?thesis by (simp add: x)
    qed
  qed
qed

lemma start_loop_best_ok:
  assumes "start_loop e g srs ers (None, \<infinity>) = Inr b"
  shows "best_ok e g (List.product srs ers) b"
proof -
  have "best_ok e g [] (None, \<infinity>)" by (simp add: best_ok_def)
  from pair_loop_best_ok[OF assms[unfolded start_loop_pair_loop] this]
  show ?thesis by simp
qed
lemma yields_Some_iff:
  "yields e g x = Some q \<longleftrightarrow>
     unit_id (fst (fst x)) \<noteq> unit_id (fst (snd x)) \<and>
     shortest_path e (to_undirected g) (unit_id (fst (fst x))) (unit_id (fst (snd x))) = Path q"
  by (simp add: yields_def split: sp_result.splits)

lemma best_ok_index:
  assumes "best_ok e g ps (Some p, l)"
  shows "\<exists>k<length ps. yields e g (ps ! k) = Some p \<and>
           (\<forall>j<length ps. \<forall>q. yields e g (ps ! j) = Some q \<longrightarrow>
              length p \<le> length q \<and> (j < k \<longrightarrow> length p < length q))"
proof -
  from assms[unfolded best_ok_Some] obtain u x v where
    d: "ps = u @ x # v" "yields e g x = Some p"
    "list_all (\<lambda>y. case yields e g y of None \<Rightarrow> True | Some q \<Rightarrow> length p < length q) u"
    "list_all (\<lambda>y. case yields e g y of None \<Rightarrow> True | Some q \<Rightarrow> length p \<le> length q) v"
    by blast
  have k: "length u < length ps" "ps ! length u = x" by (simp_all add: d(1))
  have "length p \<le> length q \<and> (j < length u \<longrightarrow> length p < length q)"
    if j: "j < length ps" and q: "yields e g (ps ! j) = Some q" for j q
  proof -
    consider (before) "j < length u" | (at) "j = length u" | (after) "length u < j"
      by linarith
    then show ?thesis
    proof cases
      case before
      then have "ps ! j \<in> set u" by (simp add: d(1) nth_append)
      with d(3) q have "length p < length q" by (auto simp: list_all_iff)
      then show ?thesis by simp
    next
      case at
      with q k(2) d(2) show ?thesis by simp
    next
      case after
      then have "ps ! j = v ! (j - length u - 1)" by (simp add: d(1) nth_append)
      moreover from after j have "j - length u - 1 < length v" by (simp add: d(1))
      ultimately have "ps ! j \<in> set v" by simp
      with d(4) q have "length p \<le> length q" by (auto simp: list_all_iff)
      with after show ?thesis by simp
    qed
  qed
  with k d(2) show ?thesis by blast
qed

lemma div_mod_index:
  "j < n \<Longrightarrow> (i * n + j) div n = (i::nat) \<and> (i * n + j) mod n = j"
  by simp

lemma product_index:
  assumes "i < length xs" and "j < length ys"
  shows "i * length ys + j < length (List.product xs ys)"
    and "List.product xs ys ! (i * length ys + j) = (xs ! i, ys ! j)"
proof -
  have "i * length ys + j < i * length ys + length ys" using assms(2) by simp
  also have "\<dots> = Suc i * length ys" by simp
  also have "\<dots> \<le> length xs * length ys"
    using assms(1) by (intro mult_le_mono1) simp
  finally show lt: "i * length ys + j < length (List.product xs ys)" by simp
  from lt have "List.product xs ys ! (i * length ys + j) =
      (xs ! ((i * length ys + j) div length ys), ys ! ((i * length ys + j) mod length ys))"
    by (simp add: product_nth)
  moreover have "(i * length ys + j) div length ys = i" "(i * length ys + j) mod length ys = j"
    using div_mod_index[OF assms(2), of i] by blast+
  ultimately show "List.product xs ys ! (i * length ys + j) = (xs ! i, ys ! j)" by simp
qed

lemma product_index_less:
  assumes "j < n" and "j' < n" and "i' < i \<or> (i' = i \<and> j' < j)"
  shows "i' * n + j' < i * n + (j::nat)"
proof (cases "i' < i")
  case True
  have "i' * n + j' < i' * n + n" using assms(2) by simp
  also have "\<dots> = Suc i' * n" by simp
  also have "\<dots> \<le> i * n" using True by (intro mult_le_mono1) simp
  finally show ?thesis by simp
next
  case False
  with assms(3) show ?thesis by simp
qed

lemma start_loop_selects:
  assumes "start_loop e g srs ers (None, \<infinity>) = Inr (Some p, l)"
  shows "\<exists>i j. i < length srs \<and> j < length ers \<and>
           yields e g (srs ! i, ers ! j) = Some p \<and>
           (\<forall>i' j' q. i' < length srs \<longrightarrow> j' < length ers \<longrightarrow>
              yields e g (srs ! i', ers ! j') = Some q \<longrightarrow>
              length p \<le> length q \<and> ((i' < i \<or> (i' = i \<and> j' < j)) \<longrightarrow> length p < length q))"
proof -
  let ?ps = "List.product srs ers"
  let ?n = "length ers"
  from best_ok_index[OF start_loop_best_ok[OF assms]] obtain k where
    k: "k < length ?ps" "yields e g (?ps ! k) = Some p"
    and mini: "\<And>j q. j < length ?ps \<Longrightarrow> yields e g (?ps ! j) = Some q \<Longrightarrow>
                 length p \<le> length q \<and> (j < k \<longrightarrow> length p < length q)"
    by blast
  from k(1) have kn: "k < length srs * ?n" by simp
  then have npos: "0 < ?n" by (cases "?n") simp_all
  define i where "i = k div ?n"
  define j where "j = k mod ?n"
  have i: "i < length srs" unfolding i_def using kn
    by (simp add: less_mult_imp_div_less)
  have j: "j < ?n" unfolding j_def using npos by simp
  have keq: "k = i * ?n + j" unfolding i_def j_def by simp
  have at: "?ps ! k = (srs ! i, ers ! j)"
    unfolding keq by (rule product_index(2)[OF i j])
  have others:
    "length p \<le> length q \<and> ((i' < i \<or> (i' = i \<and> j' < j)) \<longrightarrow> length p < length q)"
    if i': "i' < length srs" and j': "j' < ?n"
      and q: "yields e g (srs ! i', ers ! j') = Some q" for i' j' q
  proof -
    from product_index[OF i' j'] q
    have "length p \<le> length q \<and> (i' * ?n + j' < k \<longrightarrow> length p < length q)"
      using mini[of "i' * ?n + j'" q] by simp
    moreover have "i' * ?n + j' < k" if "i' < i \<or> (i' = i \<and> j' < j)"
      unfolding keq by (rule product_index_less[OF j j' that])
    ultimately show ?thesis by blast
  qed
  have y: "yields e g (srs ! i, ers ! j) = Some p" using k(2) at by simp
  from i j y others show ?thesis by blast
qed

lemma nx_contract_Path:
  assumes "nx_contract sp h" and "sp h x y = Path q"
  shows "is_shortest_path h q x y"
proof -
  from assms(1) have "case sp h x y of
              Path p \<Rightarrow> is_shortest_path h p x y
            | NetworkXNoPath \<Rightarrow> has_node h x \<and> has_node h y \<and> (\<forall>q. \<not> is_path h q x y)
            | NodeNotFound \<Rightarrow> \<not> has_node h x \<or> \<not> has_node h y"
    unfolding nx_contract_def by blast
  with assms(2) show ?thesis by simp
qed

text \<open>
  C1: when \<^verbatim>\<open>find_path\<close> has a winning path (the library function meeting its
  documented contract on the undirected view of the graph), each concept resolved to at most
  3 candidates, and the winning path is what the library returned for one pair of a start
  candidate and an end candidate with different ids; it is a shortest path of the undirected
  view between the two; no pair yields a path with fewer nodes; and every pair evaluated
  earlier (start candidate major, end candidate minor) that yields a path yields a strictly
  longer one. The returned steps are built from this path.
\<close>

theorem find_path_first_shortest:
  assumes "winning_path e s a b p"
    and "nx_contract (shortest_path e) (to_undirected (graph s))"
  shows "\<exists>srs ers i j.
           semantic_search e s a 3 = Inr srs \<and> semantic_search e s b 3 = Inr ers \<and>
           length srs \<le> 3 \<and> length ers \<le> 3 \<and>
           find_path e s a b = Inr (build_steps s p) \<and>
           i < length srs \<and> j < length ers \<and>
           unit_id (fst (srs ! i)) \<noteq> unit_id (fst (ers ! j)) \<and>
           shortest_path e (to_undirected (graph s))
             (unit_id (fst (srs ! i))) (unit_id (fst (ers ! j))) = Path p \<and>
           is_shortest_path (to_undirected (graph s)) p
             (unit_id (fst (srs ! i))) (unit_id (fst (ers ! j))) \<and>
           (\<forall>i' j' q. i' < length srs \<longrightarrow> j' < length ers \<longrightarrow>
              unit_id (fst (srs ! i')) \<noteq> unit_id (fst (ers ! j')) \<longrightarrow>
              shortest_path e (to_undirected (graph s))
                (unit_id (fst (srs ! i'))) (unit_id (fst (ers ! j'))) = Path q \<longrightarrow>
              length p \<le> length q \<and>
              ((i' < i \<or> (i' = i \<and> j' < j)) \<longrightarrow> length p < length q))"
proof -
  from assms(1) obtain srs ers l where
    s1: "semantic_search e s a 3 = Inr srs" and s2: "semantic_search e s b 3 = Inr ers"
    and loop: "start_loop e (graph s) srs ers (None, \<infinity>) = Inr (Some p, l)"
    unfolding winning_path_def by blast
  from start_loop_selects[OF loop] obtain i j where
    ij: "i < length srs" "j < length ers" "yields e (graph s) (srs ! i, ers ! j) = Some p"
    and mini: "\<And>i' j' q. i' < length srs \<Longrightarrow> j' < length ers \<Longrightarrow>
              yields e (graph s) (srs ! i', ers ! j') = Some q \<Longrightarrow>
              length p \<le> length q \<and> ((i' < i \<or> (i' = i \<and> j' < j)) \<longrightarrow> length p < length q)"
    by blast
  from ij(3) have win: "unit_id (fst (srs ! i)) \<noteq> unit_id (fst (ers ! j))"
    "shortest_path e (to_undirected (graph s))
       (unit_id (fst (srs ! i))) (unit_id (fst (ers ! j))) = Path p"
    by (simp_all add: yields_Some_iff)
  have sh: "is_shortest_path (to_undirected (graph s)) p
             (unit_id (fst (srs ! i))) (unit_id (fst (ers ! j)))"
    by (rule nx_contract_Path[OF assms(2) win(2)])
  have others: "length p \<le> length q \<and>
              ((i' < i \<or> (i' = i \<and> j' < j)) \<longrightarrow> length p < length q)"
    if "i' < length srs" "j' < length ers"
       "unit_id (fst (srs ! i')) \<noteq> unit_id (fst (ers ! j'))"
       "shortest_path e (to_undirected (graph s))
                (unit_id (fst (srs ! i'))) (unit_id (fst (ers ! j'))) = Path q" for i' j' q
  proof -
    from that(3,4) have "yields e (graph s) (srs ! i', ers ! j') = Some q"
      by (simp add: yields_Some_iff)
    from mini[OF that(1,2) this] show ?thesis .
  qed
  have len: "length srs \<le> 3" "length ers \<le> 3"
    using semantic_search_length[OF s1] semantic_search_length[OF s2] by simp_all
  from s1 s2 len winning_path_find_path[OF assms(1)] ij(1,2) win sh others
  show ?thesis by blast
qed

section \<open>The reference search meets the library contract\<close>

lemma has_edge_iff: "has_edge h u v \<longleftrightarrow> (u, v) \<in> fst ` set (edges h)"
  by (simp add: has_edge_def map_of_eq_None_iff)

lemma has_node_iff: "has_node h n \<longleftrightarrow> n \<in> fst ` set (nodes h)"
  by (simp add: has_node_def map_of_eq_None_iff)

lemma set_neighbours:
  "v \<in> set (neighbours h u) \<longleftrightarrow> has_edge h u v \<and> has_node h v"
  by (force simp: neighbours_def has_edge_iff)

lemma walks_step:
  "w \<in> set (walks h a (Suc k)) \<longleftrightarrow>
     (\<exists>v p. w = v # p \<and> p \<in> set (walks h a k) \<and> v \<in> set (neighbours h (hd p)))"
  by auto

lemma walks_sound:
  assumes "rp \<in> set (walks h a k)" and "has_node h a"
  shows "is_path h (rev rp) a (hd rp) \<and> length rp = Suc k"
  using assms(1)
proof (induction k arbitrary: rp)
  case 0
  with assms(2) show ?case by (simp add: is_path_def)
next
  case (Suc k)
  from Suc.prems obtain v p where
    w: "rp = v # p" "p \<in> set (walks h a k)" "v \<in> set (neighbours h (hd p))"
    unfolding walks_step by blast
  from Suc.IH[OF w(2)] have ih: "is_path h (rev p) a (hd p)" "length p = Suc k" by simp_all
  from ih(2) have pne: "p \<noteq> []" by auto
  from w(3) have e: "has_edge h (hd p) v" "has_node h v" by (simp_all add: set_neighbours)
  have "hd (rev p @ [v]) = a" using ih(1) pne by (simp add: is_path_def)
  moreover have "list_all (has_node h) (rev p @ [v])" using ih(1) e(2) by (simp add: is_path_def)
  moreover have "successively (has_edge h) (rev p @ [v])"
    using ih(1) e(1) pne
    by (simp add: is_path_def successively_append_iff last_rev)
  ultimately have "is_path h (rev rp) a (hd rp)"
    by (simp add: is_path_def w(1))
  with ih(2) w(1) show ?case by simp
qed

lemma walks_complete_rev:
  assumes "rp \<noteq> []" and "last rp = a" and "list_all (has_node h) rp"
    and "successively (\<lambda>x y. has_edge h y x) rp"
  shows "rp \<in> set (walks h a (length rp - 1))"
  using assms
proof (induction rp)
  case Nil
  then show ?case by simp
next
  case (Cons v p)
  show ?case
  proof (cases p)
    case Nil
    with Cons.prems show ?thesis by simp
  next
    case (Cons x xs)
    with Cons.prems have e: "has_edge h (hd p) v" "has_node h v"
      and rest: "p \<noteq> []" "last p = a" "list_all (has_node h) p"
        "successively (\<lambda>x y. has_edge h y x) p"
      by simp_all
    from Cons.IH[OF rest] have "p \<in> set (walks h a (length p - 1))" .
    moreover from e have "v \<in> set (neighbours h (hd p))" by (simp add: set_neighbours)
    moreover from rest(1) have eq: "length (v # p) - 1 = Suc (length p - 1)"
      by (cases p) simp_all
    ultimately show ?thesis
      unfolding eq walks_step by blast
  qed
qed

lemma walks_complete:
  assumes "is_path h p a b"
  shows "rev p \<in> set (walks h a (length p - 1))" and "hd (rev p) = b"
proof -
  from assms have p: "p \<noteq> []" "hd p = a" "last p = b" "list_all (has_node h) p"
    "successively (has_edge h) p"
    by (simp_all add: is_path_def)
  have "rev p \<in> set (walks h a (length (rev p) - 1))"
  proof (rule walks_complete_rev)
    show "rev p \<noteq> []" using p(1) by simp
    show "last (rev p) = a" using p(1,2) by (simp add: last_rev)
    show "list_all (has_node h) (rev p)" using p(4) by (simp add: list_all_iff)
    show "successively (\<lambda>x y. has_edge h y x) (rev p)" using p(5) by simp
  qed
  then show "rev p \<in> set (walks h a (length p - 1))" by simp
  show "hd (rev p) = b" using p(1,3) by (simp add: hd_rev)
qed

lemma search_Path:
  assumes "search h a b k fuel = Path p"
  shows "\<exists>m rp. k \<le> m \<and> rp \<in> set (walks h a m) \<and> hd rp = b \<and> p = rev rp \<and>
           (\<forall>j. k \<le> j \<and> j < m \<longrightarrow> (\<forall>w \<in> set (walks h a j). hd w \<noteq> b))"
  using assms
proof (induction fuel arbitrary: k)
  case 0
  then show ?case by simp
next
  case (Suc fuel)
  show ?case
  proof (cases "find (\<lambda>w. hd w = b) (walks h a k)")
    case None
    with Suc.prems have "search h a b (Suc k) fuel = Path p" by simp
    from Suc.IH[OF this] obtain m rp where
      m: "Suc k \<le> m" "rp \<in> set (walks h a m)" "hd rp = b" "p = rev rp"
      "\<forall>j. Suc k \<le> j \<and> j < m \<longrightarrow> (\<forall>w \<in> set (walks h a j). hd w \<noteq> b)"
      by blast
    from None have here: "\<forall>w \<in> set (walks h a k). hd w \<noteq> b"
      by (simp add: find_None_iff)
    have "\<forall>w \<in> set (walks h a j). hd w \<noteq> b" if "k \<le> j \<and> j < m" for j
    proof (cases "j = k")
      case True
      with here show ?thesis by simp
    next
      case False
      with that have "Suc k \<le> j \<and> j < m" by simp
      with m(5) show ?thesis by blast
    qed
    with m(1,2,3,4) show ?thesis by (intro exI[of _ m] exI[of _ rp]) auto
  next
    case (Some w)
    with Suc.prems have p: "p = rev w" by simp
    from Some have "w \<in> set (walks h a k)" "hd w = b"
      by (auto simp: find_Some_iff)
    with p show ?thesis by (intro exI[of _ k] exI[of _ w]) auto
  qed
qed

lemma search_NoPath:
  assumes "search h a b k fuel = NetworkXNoPath"
  shows "\<forall>j. k \<le> j \<and> j < k + fuel \<longrightarrow> (\<forall>w \<in> set (walks h a j). hd w \<noteq> b)"
  using assms
proof (induction fuel arbitrary: k)
  case 0
  then show ?case by auto
next
  case (Suc fuel)
  show ?case
  proof (cases "find (\<lambda>w. hd w = b) (walks h a k)")
    case None
    with Suc.prems have "search h a b (Suc k) fuel = NetworkXNoPath" by simp
    from Suc.IH[OF this]
    have later: "\<forall>j. Suc k \<le> j \<and> j < Suc k + fuel \<longrightarrow> (\<forall>w \<in> set (walks h a j). hd w \<noteq> b)" .
    from None have here: "\<forall>w \<in> set (walks h a k). hd w \<noteq> b"
      by (simp add: find_None_iff)
    show ?thesis
    proof (intro allI impI)
      fix j assume j: "k \<le> j \<and> j < k + Suc fuel"
      show "\<forall>w \<in> set (walks h a j). hd w \<noteq> b"
      proof (cases "j = k")
        case True
        with here show ?thesis by simp
      next
        case False
        with j have "Suc k \<le> j \<and> j < Suc k + fuel" by simp
        with later show ?thesis by blast
      qed
    qed
  next
    case (Some w)
    with Suc.prems show ?thesis by simp
  qed
qed

lemma search_not_NodeNotFound: "search h a b k fuel \<noteq> NodeNotFound"
  by (induction fuel arbitrary: k) (simp_all split: option.splits)

lemma is_path_shortcut:
  assumes "is_path h (xs @ [y] @ ys @ [y] @ zs) a b"
  shows "is_path h (xs @ [y] @ zs) a b"
proof -
  let ?q = "xs @ [y] @ ys @ [y] @ zs"
  from assms have q: "hd ?q = a" "last ?q = b" "list_all (has_node h) ?q"
    "successively (has_edge h) ?q"
    by (simp_all add: is_path_def)
  have "hd (xs @ [y] @ zs) = a" using q(1) by (cases xs) simp_all
  moreover have "last (xs @ [y] @ zs) = b" using q(2) by (cases zs rule: rev_cases) simp_all
  moreover have "list_all (has_node h) (xs @ [y] @ zs)" using q(3) by simp
  moreover have "successively (has_edge h) (xs @ [y] @ zs)"
  proof -
    have a: "successively (has_edge h) (xs @ [y])"
      using q(4) successively_append_iff[of "has_edge h" "xs @ [y]" "ys @ [y] @ zs"] by simp
    have "successively (has_edge h) ([y] @ zs)"
      using q(4) successively_append_iff[of "has_edge h" "xs @ [y] @ ys" "[y] @ zs"] by simp
    then have b: "successively (has_edge h) zs" "zs = [] \<or> has_edge h y (hd zs)"
      by (cases zs; simp)+
    from a b show ?thesis
      using successively_append_iff[of "has_edge h" "xs @ [y]" zs] by simp
  qed
  ultimately show ?thesis by (simp add: is_path_def)
qed

lemma is_path_distinct:
  assumes "is_path h q a b"
  shows "\<exists>q'. is_path h q' a b \<and> distinct q'"
  using assms
proof (induction "length q" arbitrary: q rule: less_induct)
  case less
  show ?case
  proof (cases "distinct q")
    case True
    with less.prems show ?thesis by blast
  next
    case False
    from not_distinct_decomp[OF this] obtain xs ys zs y where
      q: "q = xs @ [y] @ ys @ [y] @ zs" by blast
    from less.prems have "is_path h (xs @ [y] @ zs) a b"
      unfolding q by (rule is_path_shortcut)
    moreover have "length (xs @ [y] @ zs) < length q" by (simp add: q)
    ultimately show ?thesis by (rule less.hyps[rotated])
  qed
qed

lemma distinct_path_length:
  assumes "is_path h q a b" and "distinct q"
  shows "length q \<le> length (nodes h)"
proof -
  from assms(1) have "set q \<subseteq> fst ` set (nodes h)"
    by (auto simp: is_path_def list_all_iff has_node_iff)
  then have "card (set q) \<le> card (fst ` set (nodes h))"
    by (intro card_mono) simp_all
  also have "\<dots> \<le> card (set (nodes h))" by (intro card_image_le) simp
  also have "\<dots> \<le> length (nodes h)" by (rule card_length)
  finally show ?thesis using assms(2) by (simp add: distinct_card)
qed

lemma reference_contract: "nx_contract reference_shortest_path h"
  unfolding nx_contract_def
proof (intro allI)
  fix a b
  show "case reference_shortest_path h a b of
          Path p \<Rightarrow> is_shortest_path h p a b
        | NetworkXNoPath \<Rightarrow> has_node h a \<and> has_node h b \<and> (\<forall>q. \<not> is_path h q a b)
        | NodeNotFound \<Rightarrow> \<not> has_node h a \<or> \<not> has_node h b"
  proof (cases "has_node h a \<and> has_node h b")
    case False
    then show ?thesis by (simp add: reference_shortest_path_def)
  next
    case True
    then have r: "reference_shortest_path h a b = search h a b 0 (length (nodes h))"
      by (simp add: reference_shortest_path_def)
    show ?thesis
    proof (cases "search h a b 0 (length (nodes h))")
      case (Path p)
      from search_Path[OF Path] obtain m rp where
        m: "rp \<in> set (walks h a m)" "hd rp = b" "p = rev rp"
        "\<forall>j. j < m \<longrightarrow> (\<forall>w \<in> set (walks h a j). hd w \<noteq> b)"
        by auto
      from walks_sound[OF m(1)] True m(2,3) have p: "is_path h p a b" "length p = Suc m"
        by simp_all
      have "length p \<le> length q" if q: "is_path h q a b" for q
      proof (rule ccontr)
        assume "\<not> length p \<le> length q"
        moreover from q have "q \<noteq> []" by (simp add: is_path_def)
        ultimately have "length q - 1 < m" using p(2) by (cases q) simp_all
        with m(4) walks_complete[OF q] show False by blast
      qed
      with p(1) have "is_shortest_path h p a b" by (simp add: is_shortest_path_def)
      with r Path show ?thesis by simp
    next
      case NetworkXNoPath
      have "\<not> is_path h q a b" for q
      proof
        assume "is_path h q a b"
        from is_path_distinct[OF this] obtain q' where
          q': "is_path h q' a b" "distinct q'" by blast
        from distinct_path_length[OF q'] have "length q' \<le> length (nodes h)" .
        moreover from q'(1) have "q' \<noteq> []" by (simp add: is_path_def)
        ultimately have "length q' - 1 < length (nodes h)" by (cases q') simp_all
        with search_NoPath[OF NetworkXNoPath] walks_complete[OF q'(1)] show False by auto
      qed
      with r NetworkXNoPath True show ?thesis by simp
    next
      case NodeNotFound
      with search_not_NodeNotFound show ?thesis by blast
    qed
  qed
qed

section \<open>When the loops succeed\<close>

lemma has_node_to_undirected: "has_node (to_undirected g) n = has_node g n"
  by (simp add: has_node_def to_undirected_def)

lemma nx_contract_NodeNotFound:
  assumes "nx_contract sp h" and "sp h x y = NodeNotFound"
  shows "\<not> has_node h x \<or> \<not> has_node h y"
proof -
  from assms(1) have "case sp h x y of
              Path p \<Rightarrow> is_shortest_path h p x y
            | NetworkXNoPath \<Rightarrow> has_node h x \<and> has_node h y \<and> (\<forall>q. \<not> is_path h q x y)
            | NodeNotFound \<Rightarrow> \<not> has_node h x \<or> \<not> has_node h y"
    unfolding nx_contract_def by blast
  with assms(2) show ?thesis by simp
qed

lemma pair_loop_no_error:
  assumes "\<forall>x \<in> set ps. shortest_path e (to_undirected g)
             (unit_id (fst (fst x))) (unit_id (fst (snd x))) \<noteq> NodeNotFound"
  shows "\<exists>b'. pair_loop e g ps b = Inr b'"
  using assms
proof (induction ps arbitrary: b)
  case Nil
  show ?case by simp
next
  case (Cons x ps)
  obtain su sc eu ec where x: "x = ((su, sc), (eu, ec))" by (cases x) auto
  from Cons.prems have
    here: "shortest_path e (to_undirected g) (unit_id su) (unit_id eu) \<noteq> NodeNotFound"
    and rest: "\<forall>x \<in> set ps. shortest_path e (to_undirected g)
             (unit_id (fst (fst x))) (unit_id (fst (snd x))) \<noteq> NodeNotFound"
    by (simp_all add: x)
  show ?case
  proof (cases "shortest_path e (to_undirected g) (unit_id su) (unit_id eu)")
    case (Path q)
    then show ?thesis
      using Cons.IH[OF rest, of b] Cons.IH[OF rest, of "(Some q, enat (length q))"]
      by (simp add: x)
  next
    case NetworkXNoPath
    then show ?thesis using Cons.IH[OF rest, of b] by (simp add: x)
  next
    case NodeNotFound
    with here show ?thesis by simp
  qed
qed

lemma start_loop_no_error:
  assumes "nx_contract (shortest_path e) (to_undirected g)"
    and "\<forall>c \<in> set srs. has_node g (unit_id (fst c))"
    and "\<forall>c \<in> set ers. has_node g (unit_id (fst c))"
  shows "\<exists>b'. start_loop e g srs ers b = Inr b'"
  unfolding start_loop_pair_loop
proof (rule pair_loop_no_error, rule ballI)
  fix x assume "x \<in> set (List.product srs ers)"
  then have "has_node (to_undirected g) (unit_id (fst (fst x)))"
    "has_node (to_undirected g) (unit_id (fst (snd x)))"
    using assms(2,3) by (auto simp: has_node_to_undirected)
  with nx_contract_NodeNotFound[OF assms(1)]
  show "shortest_path e (to_undirected g) (unit_id (fst (fst x))) (unit_id (fst (snd x)))
          \<noteq> NodeNotFound"
    by blast
qed

lemma best_ok_Some_member:
  assumes "best_ok e g ps (Some p, l)"
  shows "\<exists>x \<in> set ps. yields e g x = Some p"
  using best_ok_index[OF assms] by (metis nth_mem)

text \<open>
  With every candidate a node of the graph and the library meeting its contract, a query
  whose candidates are pairwise unconnected gets the two-step disconnected answer.
\<close>

lemma find_path_disconnected:
  assumes "semantic_search e s a 3 = Inr srs" and "srs \<noteq> []"
    and "semantic_search e s b 3 = Inr ers" and "ers \<noteq> []"
    and "nx_contract (shortest_path e) (to_undirected (graph s))"
    and "\<forall>c \<in> set srs. has_node (graph s) (unit_id (fst c))"
    and "\<forall>c \<in> set ers. has_node (graph s) (unit_id (fst c))"
    and "\<forall>c \<in> set srs. \<forall>d \<in> set ers. unit_id (fst c) \<noteq> unit_id (fst d) \<longrightarrow>
           (\<forall>q. \<not> is_path (to_undirected (graph s)) q (unit_id (fst c)) (unit_id (fst d)))"
  shows "find_path e s a b =
           Inr [\<lparr>unit = fst (hd srs), relation_to_next = None\<rparr>,
                \<lparr>unit = fst (hd ers), relation_to_next = None\<rparr>]"
proof -
  from start_loop_no_error[OF assms(5,6,7)] obtain bp l where
    loop: "start_loop e (graph s) srs ers (None, \<infinity>) = Inr (bp, l)"
    by (metis surj_pair)
  have "bp = None"
  proof (cases bp)
    case None
    then show ?thesis .
  next
    case (Some p)
    from best_ok_Some_member[OF start_loop_best_ok[OF loop[unfolded Some]]]
    obtain x where x: "x \<in> set (List.product srs ers)" "yields e (graph s) x = Some p"
      by blast
    from x(2) have d: "unit_id (fst (fst x)) \<noteq> unit_id (fst (snd x))"
      and sp: "shortest_path e (to_undirected (graph s))
                 (unit_id (fst (fst x))) (unit_id (fst (snd x))) = Path p"
      by (simp_all add: yields_Some_iff)
    from nx_contract_Path[OF assms(5) sp]
    have "is_path (to_undirected (graph s)) p (unit_id (fst (fst x))) (unit_id (fst (snd x)))"
      by (simp add: is_shortest_path_def)
    moreover from x(1) have "fst x \<in> set srs" "snd x \<in> set ers" by auto
    ultimately show ?thesis using assms(8) d by blast
  qed
  with loop assms(1-4) show ?thesis
    by (simp add: find_path_def disconnected_def)
qed

text \<open>
  With every candidate a node of the graph and the library meeting its contract, a query
  for which some candidate pair is joined by a path has a winning path.
\<close>

lemma winning_path_exists:
  assumes "semantic_search e s a 3 = Inr srs" and "semantic_search e s b 3 = Inr ers"
    and "nx_contract (shortest_path e) (to_undirected (graph s))"
    and "\<forall>c \<in> set srs. has_node (graph s) (unit_id (fst c))"
    and "\<forall>c \<in> set ers. has_node (graph s) (unit_id (fst c))"
    and "c \<in> set srs" and "d \<in> set ers" and "unit_id (fst c) \<noteq> unit_id (fst d)"
    and "shortest_path e (to_undirected (graph s)) (unit_id (fst c)) (unit_id (fst d)) = Path q"
  shows "\<exists>p. winning_path e s a b p"
proof -
  from start_loop_no_error[OF assms(3,4,5)] obtain bp l where
    loop: "start_loop e (graph s) srs ers (None, \<infinity>) = Inr (bp, l)"
    by (metis surj_pair)
  have y: "yields e (graph s) (c, d) = Some q"
    using assms(8,9) by (simp add: yields_Some_iff)
  have mem: "(c, d) \<in> set (List.product srs ers)" using assms(6,7) by simp
  show ?thesis
  proof (cases bp)
    case None
    from start_loop_best_ok[OF loop[unfolded None]]
    have "list_all (\<lambda>x. yields e (graph s) x = None) (List.product srs ers)"
      by (simp add: best_ok_None)
    with mem have "yields e (graph s) (c, d) = None" unfolding list_all_iff by blast
    with y show ?thesis by simp
  next
    case (Some p)
    from best_ok_Some_member[OF start_loop_best_ok[OF loop[unfolded Some]]]
    obtain x where x: "yields e (graph s) x = Some p" by blast
    then have "shortest_path e (to_undirected (graph s))
                 (unit_id (fst (fst x))) (unit_id (fst (snd x))) = Path p"
      by (simp add: yields_Some_iff)
    from nx_contract_Path[OF assms(3) this] have "p \<noteq> []"
      by (auto simp: is_shortest_path_def is_path_def)
    moreover from assms(6,7) have "srs \<noteq> []" "ers \<noteq> []" by auto
    ultimately have "winning_path e s a b p"
      unfolding winning_path_def using assms(1,2) loop Some by blast
    then show ?thesis ..
  qed
qed

lemma demo_contract: "nx_contract (shortest_path demo_env) h"
  by (simp add: demo_env_def reference_contract)

theorem find_path_first_shortest_witness:
  "winning_path demo_env demo_kg ''x'' ''zzz'' [''a'', ''b'']
   \<and> nx_contract (shortest_path demo_env) (to_undirected (graph demo_kg))
   \<and> semantic_search demo_env demo_kg ''x'' 3 =
       Inr [(unit_of_row (demo_row ''a'' ''x''), 1), (unit_of_row (demo_row ''b'' ''yy''), 0),
            (unit_of_row (demo_row ''c'' ''zzz''), 0)]
   \<and> semantic_search demo_env demo_kg ''zzz'' 3 =
       Inr [(unit_of_row (demo_row ''c'' ''zzz''), 1), (unit_of_row (demo_row ''a'' ''x''), 0),
            (unit_of_row (demo_row ''b'' ''yy''), 0)]
   \<and> shortest_path demo_env (to_undirected (graph demo_kg)) ''a'' ''c'' = Path [''a'', ''b'', ''c'']
   \<and> shortest_path demo_env (to_undirected (graph demo_kg)) ''a'' ''b'' = Path [''a'', ''b'']
   \<and> (\<exists>srs ers i j.
           semantic_search demo_env demo_kg ''x'' 3 = Inr srs \<and>
           semantic_search demo_env demo_kg ''zzz'' 3 = Inr ers \<and>
           length srs \<le> 3 \<and> length ers \<le> 3 \<and>
           find_path demo_env demo_kg ''x'' ''zzz'' = Inr (build_steps demo_kg [''a'', ''b'']) \<and>
           i < length srs \<and> j < length ers \<and>
           unit_id (fst (srs ! i)) \<noteq> unit_id (fst (ers ! j)) \<and>
           shortest_path demo_env (to_undirected (graph demo_kg))
             (unit_id (fst (srs ! i))) (unit_id (fst (ers ! j))) = Path [''a'', ''b''] \<and>
           is_shortest_path (to_undirected (graph demo_kg)) [''a'', ''b'']
             (unit_id (fst (srs ! i))) (unit_id (fst (ers ! j))) \<and>
           (\<forall>i' j' q. i' < length srs \<longrightarrow> j' < length ers \<longrightarrow>
              unit_id (fst (srs ! i')) \<noteq> unit_id (fst (ers ! j')) \<longrightarrow>
              shortest_path demo_env (to_undirected (graph demo_kg))
                (unit_id (fst (srs ! i'))) (unit_id (fst (ers ! j'))) = Path q \<longrightarrow>
              length [''a'', ''b''] \<le> length q \<and>
              ((i' < i \<or> (i' = i \<and> j' < j)) \<longrightarrow> length [''a'', ''b''] < length q)))"
proof -
  have ac: "shortest_path demo_env (to_undirected (graph demo_kg)) ''a'' ''c''
              = Path [''a'', ''b'', ''c'']"
    by code_simp
  have ab: "shortest_path demo_env (to_undirected (graph demo_kg)) ''a'' ''b''
              = Path [''a'', ''b'']"
    by code_simp
  from find_path_first_shortest[OF demo_winning_path demo_contract]
    demo_winning_path demo_contract demo_search_x demo_search_zzz ac ab
  show ?thesis by blast
qed

end
